theory Spec2Isabelle
  imports Main "HOL-Library.Word"
begin

unbundle bit_operations_syntax

section \<open>The uIP hostname resolver (core/net/resolv.c)\<close>

text \<open>
  The datagram handed to the resolver (\<^verbatim>\<open>uip_appdata\<close>, of \<^verbatim>\<open>uip_datalen()\<close> bytes) is a
  list of bytes. The C code addresses it through a bare pointer and never compares the
  pointer with the length of the datagram. In the model every access names its index,
  and an access at an index that is not inside the datagram is the error
  \<open>OutOfBounds i\<close>: the C program reads or writes memory that is not part of the
  received datagram there. \<open>NameOutOfRange\<close> is an access outside a host name or the
  array that holds one, and \<open>NullPointer\<close> the use of a null pointer as a string.
\<close>

type_synonym u8_t = "8 word"
type_synonym u16_t = "16 word"

datatype error = OutOfBounds nat | NameOutOfRange | NullPointer

subsection \<open>Walking over a name: \<^verbatim>\<open>parse_name\<close>\<close>

text \<open>
  \<^verbatim>\<open>
  static unsigned char *parse_name(unsigned char *query) {
    unsigned char n;
    do {
      n = *query;
      if(n & 0xc0) { *query++ = 0; break; }
      *query++ = '.';
      while(n > 0) { ++query; --n; }
    } while(*query != 0);
    return query + 1;
  }
  \<close>
  The cursor \<open>q\<close> is the offset of \<^verbatim>\<open>query\<close> in the datagram. The inner loop only
  advances the pointer (it reads the characters in debug builds alone), so it is the
  addition of \<open>n\<close>. One call of the function below is one pass of the body of the
  \<^verbatim>\<open>do\<close> loop followed by the test of its condition.
\<close>

function parse_name :: "u8_t list \<Rightarrow> nat \<Rightarrow> error + (u8_t list \<times> nat)" where
  "parse_name buf q =
     (if length buf \<le> q then Inl (OutOfBounds q)
      else let n = buf ! q in
        if n AND 0xC0 \<noteq> 0 then Inr (buf[q := 0], q + 1 + 1)
        else let buf' = buf[q := 0x2E]; q' = q + 1 + unat n in
          if length buf' \<le> q' then Inl (OutOfBounds q')
          else if buf' ! q' \<noteq> 0 then parse_name buf' q'
          else Inr (buf', q' + 1))"
  by pat_completeness auto
termination
  by (relation "measure (\<lambda>(buf, q). length buf - q)") auto

declare parse_name.simps [simp del]

text \<open>
  The three places of \<^verbatim>\<open>newdata\<close> that step over a name (in the question of a request,
  in the questions of a response, in its answers) are the same lines:
  \<^verbatim>\<open>
  if(*nameptr & 0xc0) { nameptr += 2; } else { nameptr = parse_name((uint8_t *)nameptr); }
  \<close>
\<close>

definition skip_name :: "u8_t list \<Rightarrow> nat \<Rightarrow> error + (u8_t list \<times> nat)" where
  "skip_name buf q =
     (if length buf \<le> q then Inl (OutOfBounds q)
      else if buf ! q AND 0xC0 \<noteq> 0 then Inr (buf, q + 2)
      else parse_name buf q)"

subsection \<open>Names on the wire\<close>

text \<open>
  A name on the wire is a sequence of labels, each a length byte followed by that many
  bytes; \<open>wire\<close> writes the labels without what ends the name (a zero byte, or a
  compression pointer). A label has between 1 and 63 bytes, so that its length byte is
  neither the terminator nor has one of its two top bits set.
\<close>

definition wire_label :: "u8_t list \<Rightarrow> u8_t list" where
  "wire_label l = of_nat (length l) # l"

definition wire :: "u8_t list list \<Rightarrow> u8_t list" where
  "wire ls = concat (map wire_label ls)"

definition wf_label :: "u8_t list \<Rightarrow> bool" where
  "wf_label l = (0 < length l \<and> length l < 64)"

definition wf_labels :: "u8_t list list \<Rightarrow> bool" where
  "wf_labels ls = list_all wf_label ls"

text \<open>The text of a name: its labels separated by dots (\<open>0x2E\<close> is the character \<open>.\<close>).\<close>

fun dotted :: "u8_t list list \<Rightarrow> u8_t list" where
  "dotted [] = []"
| "dotted [l] = l"
| "dotted (l # ls) = l @ 0x2E # dotted ls"

subsection \<open>The table of names\<close>

text \<open>
  \<^verbatim>\<open>struct namemap\<close>: \<^verbatim>\<open>state\<close> only ever holds one of the five \<^verbatim>\<open>STATE_\<close> constants.
  \<^verbatim>\<open>name\<close> is an array of \<^verbatim>\<open>RESOLV_CONF_MAX_DOMAIN_NAME_SIZE+1\<close> = 33 characters; the
  field of the model holds the characters of the array before its terminator, and all
  33 of them when the array has none (the array is only ever written by a \<^verbatim>\<open>strncpy\<close>
  of 33 bytes, which fills what is left of it with zeros). \<^verbatim>\<open>ipaddr\<close> holds the 4 (IPv4)
  or 16 (IPv6) bytes of a \<^verbatim>\<open>uip_ipaddr_t\<close>, and no bytes as long as the entry has never
  been given an address.
\<close>

datatype entry_state = STATE_UNUSED | STATE_NEW | STATE_ASKING | STATE_DONE | STATE_ERROR

record namemap =
  state :: entry_state
  tmr :: u8_t
  retries :: u8_t
  seqno :: u8_t
  err :: u8_t
  is_mdns :: bool
  name :: string
  ipaddr :: "u8_t list"

text \<open>
  The file's static variables: the array \<^verbatim>\<open>names[RESOLV_ENTRIES]\<close> and the counter
  \<^verbatim>\<open>static u8_t seqno\<close> (here \<open>cur_seqno\<close>; \<open>seqno\<close> is the field of an entry).
  \<^verbatim>\<open>RESOLV_ENTRIES\<close> is the length of \<open>names\<close>. The loops over the table count in a
  \<^verbatim>\<open>u8_t\<close>, so a table has between 1 and 255 entries. \<open>resolv_hostname\<close> is the static
  array of that name, which holds the host's own name for the mDNS responder
  (\<^verbatim>\<open>CONTIKI_CONF_DEFAULT_HOSTNAME\<close>, \<open>contiki\<close>, unless \<^verbatim>\<open>resolv_set_hostname\<close> is called).
\<close>

record resolver =
  names :: "namemap list"
  cur_seqno :: u8_t
  resolv_hostname :: string

text \<open>
  The compile-time switches and constants the modelled code depends on, and what the
  mDNS responder takes from the rest of the stack, whose declarations are not in this
  file: the host address of an IPv4 build (\<^verbatim>\<open>uip_gethostaddr\<close>), and for an IPv6 build
  the address list of the interface (\<^verbatim>\<open>uip_ds6_if.addr_list\<close>, each element with its
  \<^verbatim>\<open>isused\<close> flag and its \<^verbatim>\<open>ipaddr\<close>) and the test \<^verbatim>\<open>uip_is_addr_link_local\<close>.
\<close>

record config =
  UIP_CONF_IPV6 :: bool
  UIP_CONF_LOOPBACK_INTERFACE :: bool
  RESOLV_CONF_SUPPORTS_MDNS :: bool
  RESOLV_CONF_MDNS_RESPONDER :: bool
  RESOLV_CONF_MDNS_INCLUDE_GLOBAL_V6_ADDRS :: bool
  RESOLV_CONF_MAX_RETRIES :: nat
  RESOLV_CONF_MAX_MDNS_RETRIES :: nat
  uip_hostaddr :: "u8_t list"
  uip_ds6_addr_list :: "(bool \<times> u8_t list) list"
  uip_is_addr_link_local :: "u8_t list \<Rightarrow> bool"

text \<open>
  What the resolver hands to its collaborators: \<open>Found i a\<close> is the call
  \<^verbatim>\<open>resolv_found(names[i].name, a)\<close>, where \<open>a\<close> is \<open>None\<close> for the \<^verbatim>\<open>NULL\<close> address and
  otherwise the address stored in the entry; \<open>Sendto d m n\<close> is one call of
  \<^verbatim>\<open>uip_udp_packet_sendto\<close> with a question for the name \<open>n\<close> under the transaction
  id \<open>d\<close>, to the mDNS group when \<open>m\<close> holds and to the configured server otherwise;
  \<open>Reply bs\<close> is the call of \<^verbatim>\<open>uip_udp_packet_sendto\<close> with which the mDNS responder
  sends the bytes \<open>bs\<close> (to the mDNS group if the request came from the mDNS port, to
  the sender of the request otherwise; the source of a datagram is not part of the
  model).
\<close>

datatype event =
  is_Found: Found nat "u8_t list option"
| is_Sendto: Sendto u16_t bool string
| is_Reply: Reply "u8_t list"

definition RESOLV_ENCODE_INDEX :: "nat \<Rightarrow> u16_t" where
  "RESOLV_ENCODE_INDEX i = of_nat (i + 61616)"

definition RESOLV_DECODE_INDEX :: "u16_t \<Rightarrow> u8_t" where
  "RESOLV_DECODE_INDEX d = ucast (d - 61616)"

subsection \<open>The query driver: \<^verbatim>\<open>check_entries\<close>\<close>

text \<open>
  The field \<^verbatim>\<open>is_mdns\<close> exists in builds with \<^verbatim>\<open>RESOLV_CONF_SUPPORTS_MDNS\<close> only; the
  other builds treat every entry as an ordinary one.
\<close>

definition uses_mdns :: "config \<Rightarrow> namemap \<Rightarrow> bool" where
  "uses_mdns cfg e = (RESOLV_CONF_SUPPORTS_MDNS cfg \<and> is_mdns e)"

definition max_retries :: "config \<Rightarrow> namemap \<Rightarrow> nat" where
  "max_retries cfg e =
     (if uses_mdns cfg e then RESOLV_CONF_MAX_MDNS_RETRIES cfg else RESOLV_CONF_MAX_RETRIES cfg)"

text \<open>
  The \<^verbatim>\<open>for\<close> loop of \<^verbatim>\<open>check_entries\<close>, from index \<open>i\<close> on; the list holds
  \<^verbatim>\<open>names[i]\<close>, \<^verbatim>\<open>names[i+1]\<close>, ... The two \<^verbatim>\<open>continue\<close> statements go on with the next
  entry, the \<^verbatim>\<open>break\<close> after \<^verbatim>\<open>uip_udp_packet_sendto\<close> leaves the loop.
  \<^verbatim>\<open>
  for(i = 0; i < RESOLV_ENTRIES; ++i) {
    namemapptr = &names[i];
    if(namemapptr->state == STATE_NEW || namemapptr->state == STATE_ASKING) {
      etimer_set(&retry, CLOCK_SECOND);
      if(namemapptr->state == STATE_ASKING) {
        if(--namemapptr->tmr == 0) {
          if(++namemapptr->retries ==
             (namemapptr->is_mdns?RESOLV_CONF_MAX_MDNS_RETRIES:RESOLV_CONF_MAX_RETRIES)) {
            namemapptr->state = STATE_ERROR;
            resolv_found(namemapptr->name, NULL);
            continue;
          }
          namemapptr->tmr = namemapptr->retries;
        } else {
          continue;
        }
      } else {
        namemapptr->state = STATE_ASKING;
        namemapptr->tmr = 1;
        namemapptr->retries = 0;
      }
      ... the question for namemapptr->name is built, with id RESOLV_ENCODE_INDEX(i),
      and sent with uip_udp_packet_sendto ...
      break;
    }
  }
  \<close>
  The retry timer (\<^verbatim>\<open>etimer_set\<close>) belongs to the timer service that calls the driver
  and is not part of the state; of the question that is sent, the model keeps the id,
  the destination and the name.
\<close>

fun check_entries_from :: "config \<Rightarrow> nat \<Rightarrow> namemap list \<Rightarrow> namemap list \<times> event list" where
  "check_entries_from cfg i [] = ([], [])"
| "check_entries_from cfg i (e # es) =
     (if state e = STATE_NEW \<or> state e = STATE_ASKING then
        if state e = STATE_ASKING then
          let e1 = e\<lparr>tmr := tmr e - 1\<rparr> in
          if tmr e1 = 0 then
            let e2 = e1\<lparr>retries := retries e1 + 1\<rparr> in
            if unat (retries e2) = max_retries cfg e2 then
              let (es', evs) = check_entries_from cfg (Suc i) es
              in (e2\<lparr>state := STATE_ERROR\<rparr> # es', Found i None # evs)
            else
              (e2\<lparr>tmr := retries e2\<rparr> # es,
               [Sendto (RESOLV_ENCODE_INDEX i) (uses_mdns cfg e2) (name e2)])
          else
            let (es', evs) = check_entries_from cfg (Suc i) es in (e1 # es', evs)
        else
          (e\<lparr>state := STATE_ASKING, tmr := 1, retries := 0\<rparr> # es,
           [Sendto (RESOLV_ENCODE_INDEX i) (uses_mdns cfg e) (name e)])
      else
        let (es', evs) = check_entries_from cfg (Suc i) es in (e # es', evs))"

definition check_entries :: "config \<Rightarrow> resolver \<Rightarrow> resolver \<times> event list" where
  "check_entries cfg s =
     (let (es', evs) = check_entries_from cfg 0 (names s) in (s\<lparr>names := es'\<rparr>, evs))"

text \<open>\<open>n\<close> invocations of the driver in a row, with nothing else in between.\<close>

fun ticks :: "config \<Rightarrow> nat \<Rightarrow> resolver \<Rightarrow> resolver \<times> event list" where
  "ticks cfg 0 s = (s, [])"
| "ticks cfg (Suc n) s =
     (let (s1, evs1) = check_entries cfg s; (s2, evs2) = ticks cfg n s1
      in (s2, evs1 @ evs2))"

subsection \<open>Queueing a name: \<^verbatim>\<open>resolv_query\<close>\<close>

text \<open>
  Both \<^verbatim>\<open>resolv_query\<close> and \<^verbatim>\<open>resolv_lookup\<close> begin by removing trailing dots:
  \<^verbatim>\<open>
  size_t len = strlen(name);
  if(name[len-1]=='.') {
    strncpy(dns_name_without_dots,name,sizeof(dns_name_without_dots));
    while(len && (dns_name_without_dots[len-1]=='.')) { dns_name_without_dots[--len]=0; }
    name = dns_name_without_dots;
  }
  \<close>
  A name is the list of the characters of the C string. \<open>strip_dots\<close> is the \<^verbatim>\<open>while\<close>
  loop. \<^verbatim>\<open>dns_name_without_dots\<close> is a static array of 33 bytes. For the empty name the
  code reads \<^verbatim>\<open>name[-1]\<close>, in front of the string, and for a name with a trailing dot
  and more than 33 characters it reads \<^verbatim>\<open>dns_name_without_dots[len-1]\<close> behind the
  array: to both the model answers \<open>NameOutOfRange\<close>. \<^verbatim>\<open>resolv_query\<close> copies 33 bytes,
  so that a name of up to 33 characters is in the array with all its dots.
  \<^verbatim>\<open>resolv_lookup\<close> copies \<^verbatim>\<open>sizeof(dns_name_without_dots)-1\<close> = 32 bytes; for a name of 33
  characters its loop begins at byte 32 of the array, which this \<^verbatim>\<open>strncpy\<close> has not
  written. That byte is zero: the array is static, and the only other write to it is
  the \<^verbatim>\<open>strncpy\<close> of \<^verbatim>\<open>resolv_query\<close>, which leaves zero padding there or, for a name of
  33 characters, the last dot, which the loop then replaces by zero. So the loop of
  \<^verbatim>\<open>resolv_lookup\<close> ends at once on such a name, and the name it looks up is the first
  32 characters as they are. \<open>copied\<close> is the number of bytes that \<^verbatim>\<open>strncpy\<close> writes.
\<close>

function strip_dots :: "string \<Rightarrow> string" where
  "strip_dots nm = (if nm \<noteq> [] \<and> last nm = CHR ''.'' then strip_dots (butlast nm) else nm)"
  by pat_completeness auto
termination
  by (relation "measure length") auto

declare strip_dots.simps [simp del]

definition without_dots :: "nat \<Rightarrow> string \<Rightarrow> error + string" where
  "without_dots copied nm =
     (if nm = [] then Inl NameOutOfRange
      else if last nm = CHR ''.'' then
        if 33 < length nm then Inl NameOutOfRange
        else if copied < length nm then Inr (take copied nm)
        else Inr (strip_dots nm)
      else Inr nm)"

text \<open>
  The search loop of \<^verbatim>\<open>resolv_query\<close>, from index \<open>i\<close> on, with the running values of
  \<^verbatim>\<open>lseq\<close> and \<^verbatim>\<open>lseqi\<close>; it returns the final \<^verbatim>\<open>i\<close> and \<^verbatim>\<open>lseqi\<close>.
  \<^verbatim>\<open>
  for(i = 0; i < RESOLV_ENTRIES; ++i) {
    nameptr = &names[i];
    if((nameptr->state == STATE_UNUSED) || (0==strcmp(nameptr->name,name))) break;
    if(seqno - nameptr->seqno > lseq) { lseq = seqno - nameptr->seqno; lseqi = i; }
  }
  \<close>
  \<^verbatim>\<open>seqno\<close>, \<^verbatim>\<open>nameptr->seqno\<close> and \<^verbatim>\<open>lseq\<close> are \<^verbatim>\<open>u8_t\<close>; C promotes them to \<^verbatim>\<open>int\<close>
  before it subtracts and compares, so the difference in the test is the difference
  of the integers and can be negative. The assignment to \<^verbatim>\<open>lseq\<close> converts back to
  \<^verbatim>\<open>u8_t\<close>. \<^verbatim>\<open>strcmp(nameptr->name,name)\<close> compares the string that begins in the array
  of the entry with the name. Where the array has no terminator (33 characters) and
  the name agrees with all of it, \<^verbatim>\<open>strcmp\<close> reads on behind the array; the model
  takes the string of the entry to end with the array, as it does when a zero byte
  follows: the table is cleared when the process starts
  (\<^verbatim>\<open>memset(names,0,sizeof(names))\<close>), and behind the array lie padding, which is never
  written, or the address, which is zero until a response sets it.
\<close>

fun query_scan :: "string \<Rightarrow> u8_t \<Rightarrow> namemap list \<Rightarrow> nat \<Rightarrow> u8_t \<Rightarrow> nat \<Rightarrow> nat \<times> nat" where
  "query_scan nm sq [] i lseq lseqi = (i, lseqi)"
| "query_scan nm sq (e # es) i lseq lseqi =
     (if state e = STATE_UNUSED \<or> name e = nm then (i, lseqi)
      else if uint sq - uint (seqno e) > uint lseq
        then query_scan nm sq es (Suc i) (sq - seqno e) i
        else query_scan nm sq es (Suc i) lseq lseqi)"

text \<open>
  The index of the entry that \<^verbatim>\<open>resolv_query\<close> writes
  (\<^verbatim>\<open>if(i == RESOLV_ENTRIES) i = lseqi;\<close>), and the function itself, which ends
  \<^verbatim>\<open>
  size_t name_len = strlen(name);
  static const char local_suffix[] = "local";
  if((name_len>(sizeof(local_suffix)-1))
     && (0==strcmp(name+name_len-(sizeof(local_suffix)-1),local_suffix))) {
    nameptr->is_mdns = 1;
  } else {
    nameptr->is_mdns = 0;
  }
  strncpy(nameptr->name, name, sizeof(nameptr->name));
  nameptr->state = STATE_NEW;
  nameptr->seqno = seqno;
  ++seqno;
  \<close>
  and posts an event to the resolver's process, which is not part of the state. The
  function has no test of the length of the name: \<^verbatim>\<open>strncpy\<close> writes the 33 bytes of the
  array, the name followed by zeros, or the first 33 characters of a name that has 33
  or more, and then no terminator.
\<close>

definition query_index :: "string \<Rightarrow> resolver \<Rightarrow> nat" where
  "query_index nm s =
     (let (i, lseqi) = query_scan nm (cur_seqno s) (names s) 0 0 0
      in if i = length (names s) then lseqi else i)"

definition local_suffix :: string where
  "local_suffix = ''local''"

definition resolv_query :: "config \<Rightarrow> string \<Rightarrow> resolver \<Rightarrow> error + resolver" where
  "resolv_query cfg nm0 s =
     (case without_dots 33 nm0 of
        Inl e \<Rightarrow> Inl e
      | Inr nm \<Rightarrow>
          let i = query_index nm s;
              e = names s ! i;
              e1 = e\<lparr>is_mdns := RESOLV_CONF_SUPPORTS_MDNS cfg \<and> length nm > length local_suffix
                        \<and> drop (length nm - length local_suffix) nm = local_suffix\<rparr>;
              e2 = e1\<lparr>name := take 33 nm, state := STATE_NEW, seqno := cur_seqno s\<rparr>
          in Inr (s\<lparr>names := (names s)[i := e2], cur_seqno := cur_seqno s + 1\<rparr>))"

subsection \<open>Looking a name up: \<^verbatim>\<open>resolv_lookup\<close>\<close>

definition loopback :: "config \<Rightarrow> u8_t list" where
  "loopback cfg =
     (if UIP_CONF_IPV6 cfg then [0, 0, 0, 0, 0, 0, 0, 0, 0, 0, 0, 0, 0, 0, 0, 1]
      else [127, 0, 0, 1])"

text \<open>The loop over the table: the address of the first entry that is done and has the name.\<close>

fun lookup_scan :: "string \<Rightarrow> namemap list \<Rightarrow> u8_t list option" where
  "lookup_scan nm [] = None"
| "lookup_scan nm (e # es) =
     (if state e = STATE_DONE \<and> nm = name e then Some (ipaddr e) else lookup_scan nm es)"

text \<open>
  \<^verbatim>\<open>strcmp(name,"localhost")\<close> is the value of \<^verbatim>\<open>strcmp\<close> itself, which is not zero when
  the two strings differ:
  \<^verbatim>\<open>
  #if UIP_CONF_LOOPBACK_INTERFACE
    if(strcmp(name,"localhost")) { ... return &loopback; }
  #endif
  \<close>
  \<open>None\<close> is the \<^verbatim>\<open>NULL\<close> that the function returns for a name it does not know.
\<close>

definition resolv_lookup :: "config \<Rightarrow> string \<Rightarrow> resolver \<Rightarrow> error + u8_t list option" where
  "resolv_lookup cfg nm0 s =
     (case without_dots 32 nm0 of
        Inl e \<Rightarrow> Inl e
      | Inr nm \<Rightarrow>
          if UIP_CONF_LOOPBACK_INTERFACE cfg \<and> nm \<noteq> ''localhost'' then Inr (Some (loopback cfg))
          else Inr (lookup_scan nm (names s)))"

subsection \<open>Responses in \<^verbatim>\<open>newdata\<close>\<close>

text \<open>
  Reading the datagram. The fields of \<^verbatim>\<open>struct dns_hdr\<close> and \<^verbatim>\<open>struct dns_answer\<close> are
  16-bit values in network byte order; \<open>rd16\<close> is the value \<^verbatim>\<open>uip_ntohs\<close> gives for the
  two bytes at an offset, so that a comparison of a field with \<^verbatim>\<open>UIP_HTONS(c)\<close> is the
  comparison of \<open>rd16\<close> with \<open>c\<close>.
\<close>

definition rd :: "u8_t list \<Rightarrow> nat \<Rightarrow> error + u8_t" where
  "rd buf q = (if q < length buf then Inr (buf ! q) else Inl (OutOfBounds q))"

definition rd16 :: "u8_t list \<Rightarrow> nat \<Rightarrow> error + u16_t" where
  "rd16 buf q =
     (if length buf \<le> q then Inl (OutOfBounds q)
      else if length buf \<le> q + 1 then Inl (OutOfBounds (q + 1))
      else Inr (ucast (buf ! q) * 256 + ucast (buf ! (q + 1))))"

definition rd_bytes :: "u8_t list \<Rightarrow> nat \<Rightarrow> nat \<Rightarrow> error + u8_t list" where
  "rd_bytes buf q n =
     (if q + n \<le> length buf then Inr (take n (drop q buf))
      else Inl (OutOfBounds (max q (length buf))))"

text \<open>The two bytes of a 16-bit value in network byte order, as \<^verbatim>\<open>UIP_HTONS\<close> stores it.\<close>

definition be16 :: "u16_t \<Rightarrow> u8_t list" where
  "be16 v = [ucast (drop_bit 8 v), ucast v]"

definition DNS_TYPE_A :: u16_t where "DNS_TYPE_A = 1"
definition DNS_TYPE_AAAA :: u16_t where "DNS_TYPE_AAAA = 28"
definition DNS_TYPE_ANY :: u16_t where "DNS_TYPE_ANY = 255"
definition DNS_CLASS_IN :: u16_t where "DNS_CLASS_IN = 1"
definition DNS_FLAG1_RESPONSE :: u8_t where "DNS_FLAG1_RESPONSE = 0x80"
definition DNS_FLAG1_AUTHORATIVE :: u8_t where "DNS_FLAG1_AUTHORATIVE = 0x04"
definition DNS_FLAG2_ERR_MASK :: u8_t where "DNS_FLAG2_ERR_MASK = 0x0f"

text \<open>
  The loop over the questions of a response:
  \<^verbatim>\<open>
  while(nquestions > 0) {
    if(*nameptr & 0xc0) { nameptr +=2; } else { nameptr = parse_name((uint8_t *)nameptr); }
    nameptr += 4; nquestions--;
  }
  \<close>
\<close>

fun skip_questions :: "u8_t list \<Rightarrow> nat \<Rightarrow> nat \<Rightarrow> error + (u8_t list \<times> nat)" where
  "skip_questions buf q 0 = Inr (buf, q)"
| "skip_questions buf q (Suc n) =
     (case skip_name buf q of
        Inl e \<Rightarrow> Inl e
      | Inr (buf', q') \<Rightarrow> skip_questions buf' (q' + 4) n)"

text \<open>
  The test of an answer record at offset \<open>q\<close> (\<^verbatim>\<open>ans\<close>): type at \<open>q\<close>, class at \<open>q + 2\<close>,
  length at \<open>q + 8\<close>, address at \<open>q + 10\<close>. The two builds spell the test of the class
  differently:
  \<^verbatim>\<open>
  #if UIP_CONF_IPV6
    if((ans->type == UIP_HTONS(DNS_TYPE_AAAA)) && ((uip_ntohs(ans->class)&0x7FFF) == DNS_CLASS_IN)
       && (ans->len == UIP_HTONS(16)))
  #else
    if(ans->type == UIP_HTONS(DNS_TYPE_A) && (uip_ntohs(ans->class)&0x7FFF == DNS_CLASS_IN)
       && (ans->len == UIP_HTONS(4)))
  #endif
  \<close>
  In C \<^verbatim>\<open>==\<close> binds tighter than \<^verbatim>\<open>&\<close>: the IPv4 line computes
  \<^verbatim>\<open>uip_ntohs(ans->class) & (0x7FFF == DNS_CLASS_IN)\<close>. \<^verbatim>\<open>&&\<close> evaluates its right operand
  only when the left one holds, and so a field is read only then.
\<close>

definition class_usable :: "config \<Rightarrow> u16_t \<Rightarrow> bool" where
  "class_usable cfg cl =
     (if UIP_CONF_IPV6 cfg then (cl AND 0x7FFF) = DNS_CLASS_IN
      else cl AND (if (0x7FFF :: u16_t) = DNS_CLASS_IN then 1 else 0) \<noteq> 0)"

definition addr_type :: "config \<Rightarrow> u16_t" where
  "addr_type cfg = (if UIP_CONF_IPV6 cfg then DNS_TYPE_AAAA else DNS_TYPE_A)"

definition addr_size :: "config \<Rightarrow> nat" where
  "addr_size cfg = (if UIP_CONF_IPV6 cfg then 16 else 4)"

definition ans_usable :: "config \<Rightarrow> u8_t list \<Rightarrow> nat \<Rightarrow> error + bool" where
  "ans_usable cfg buf q =
     (case rd16 buf q of
        Inl e \<Rightarrow> Inl e
      | Inr ty \<Rightarrow>
          if ty \<noteq> addr_type cfg then Inr False
          else
            (case rd16 buf (q + 2) of
               Inl e \<Rightarrow> Inl e
             | Inr cl \<Rightarrow>
                 if \<not> class_usable cfg cl then Inr False
                 else
                   (case rd16 buf (q + 8) of
                      Inl e \<Rightarrow> Inl e
                    | Inr ln \<Rightarrow> Inr (ln = of_nat (addr_size cfg)))))"

text \<open>
  The loop over the answers; \<open>Some a\<close> is the address of the record that ended it
  (the \<^verbatim>\<open>return\<close> inside the loop), \<open>None\<close> says that the loop ran to its end.
  \<^verbatim>\<open>
  while(nanswers > 0) {
    if(*nameptr & 0xc0) { nameptr +=2; } else { nameptr = parse_name((uint8_t *)nameptr); }
    ans = (struct dns_answer *)nameptr;
    if( ...usable... ) {
      namemapptr->state = STATE_DONE;
      uip_ipaddr_copy(&namemapptr->ipaddr,(uip_ipaddr_t*)ans->ipaddr);
      resolv_found(namemapptr->name, &namemapptr->ipaddr);
      return;
    } else {
      nameptr = nameptr + 10 + uip_htons(ans->len);
    }
    --nanswers;
  }
  \<close>
\<close>

fun walk_answers :: "config \<Rightarrow> u8_t list \<Rightarrow> nat \<Rightarrow> nat \<Rightarrow> error + u8_t list option" where
  "walk_answers cfg buf q 0 = Inr None"
| "walk_answers cfg buf q (Suc n) =
     (case skip_name buf q of
        Inl e \<Rightarrow> Inl e
      | Inr (buf', q') \<Rightarrow>
          (case ans_usable cfg buf' q' of
             Inl e \<Rightarrow> Inl e
           | Inr True \<Rightarrow>
               (case rd_bytes buf' (q' + 10) (addr_size cfg) of
                  Inl e \<Rightarrow> Inl e
                | Inr a \<Rightarrow> Inr (Some a))
           | Inr False \<Rightarrow>
               (case rd16 buf' (q' + 8) of
                  Inl e \<Rightarrow> Inl e
                | Inr ln \<Rightarrow> walk_answers cfg buf' (q' + 10 + unat ln) n)))"

subsection \<open>The mDNS responder in \<^verbatim>\<open>newdata\<close>\<close>

text \<open>
  A datagram whose two flag bytes are zero is a request. A build with
  \<^verbatim>\<open>RESOLV_CONF_MDNS_RESPONDER\<close> (the default where mDNS is supported) looks in it for a
  question for the host's own name and answers the first one it finds:
  \<^verbatim>\<open>
  nameptr = (char*)hdr+sizeof(*hdr);
  char* name = 0;
  while(nquestions > 0) {
    if(*nameptr & 0xc0) { nameptr +=2; }
    else { name = (char*)nameptr+1; nameptr = parse_name((uint8_t *)nameptr); }
    question = (struct dns_question*)nameptr;
    nameptr += sizeof(struct dns_question);
    nquestions--;
    if(((uip_ntohs(question->class)&0x7FFF) != DNS_CLASS_IN)
       || ( (question->type!=UIP_HTONS(DNS_TYPE_ANY))
            && (question->type!=UIP_HTONS(DNS_TYPE_A)) ))   /* DNS_TYPE_AAAA with IPv6 */
      continue;
    if(0!=strncasecmp(resolv_hostname,name,strlen(resolv_hostname))) continue;
    if(0!=strcasecmp(name+strlen(resolv_hostname),".local")) continue;
    ... the reply is written and sent ...
    return;
  }
  \<close>
  \<^verbatim>\<open>name\<close> points into the datagram, at the text that \<^verbatim>\<open>parse_name\<close> has made of the
  name of a question, and is the null pointer until a question with a name that does
  not begin with a compression pointer has been met. \<^verbatim>\<open>strncasecmp\<close> and \<^verbatim>\<open>strcasecmp\<close>
  are the functions of the C library: they compare two strings byte by byte without
  regard to the case of letters and read no further than the first difference, the
  terminator or, for \<^verbatim>\<open>strncasecmp\<close>, the given number of characters; \<open>True\<close> is their
  result 0. The host name is compared as the bytes in front of its terminator.
\<close>

definition tolower :: "u8_t \<Rightarrow> u8_t" where
  "tolower c = (if 0x41 \<le> c \<and> c \<le> 0x5A then c + 0x20 else c)"

definition hostname_bytes :: "resolver \<Rightarrow> u8_t list" where
  "hostname_bytes s = takeWhile (\<lambda>b. b \<noteq> 0) (map of_char (resolv_hostname s))"

fun strncasecmp :: "u8_t list \<Rightarrow> u8_t list \<Rightarrow> nat \<Rightarrow> error + bool" where
  "strncasecmp [] buf q = Inr True"
| "strncasecmp (c # cs) buf q =
     (case rd buf q of
        Inl e \<Rightarrow> Inl e
      | Inr b \<Rightarrow> if tolower c \<noteq> tolower b then Inr False else strncasecmp cs buf (q + 1))"

fun strcasecmp :: "u8_t list \<Rightarrow> nat \<Rightarrow> u8_t list \<Rightarrow> error + bool" where
  "strcasecmp buf q [] = (case rd buf q of Inl e \<Rightarrow> Inl e | Inr b \<Rightarrow> Inr (b = 0))"
| "strcasecmp buf q (c # cs) =
     (case rd buf q of
        Inl e \<Rightarrow> Inl e
      | Inr b \<Rightarrow> if tolower b \<noteq> tolower c then Inr False else strcasecmp buf (q + 1) cs)"

definition dot_local :: "u8_t list" where
  "dot_local = map of_char ''.local''"

text \<open>
  The test of the class and the type of the question at offset \<open>q\<close>; \<^verbatim>\<open>||\<close> reads the
  type only when the class is IN.
\<close>

definition own_question :: "config \<Rightarrow> u8_t list \<Rightarrow> nat \<Rightarrow> error + bool" where
  "own_question cfg buf q =
     (case rd16 buf (q + 2) of
        Inl e \<Rightarrow> Inl e
      | Inr cl \<Rightarrow>
          if cl AND 0x7FFF \<noteq> DNS_CLASS_IN then Inr False
          else
            (case rd16 buf q of
               Inl e \<Rightarrow> Inl e
             | Inr ty \<Rightarrow> Inr (ty = DNS_TYPE_ANY \<or> ty = addr_type cfg)))"

text \<open>
  The reply is written into the buffer that holds the request, from its beginning on
  and beyond the end of the request:
  \<^verbatim>\<open>
  hdr->flags1 |= DNS_FLAG1_RESPONSE|DNS_FLAG1_AUTHORATIVE;
  hdr->numquestions = UIP_HTONS(0);
  hdr->numauthrr = 0;
  hdr->numextrarr = 0;
  nameptr = (char*)hdr+sizeof(*hdr);
  #if UIP_CONF_IPV6
    uint8_t acount=0;
    for (i=0;i<UIP_DS6_ADDR_NB;i++) {
      if (uip_ds6_if.addr_list[i].isused
          && uip_is_addr_link_local(&uip_ds6_if.addr_list[i].ipaddr)) {  /* unless global too */
        if(!acount) { nameptr = encode_name(nameptr,name); }
        else { *nameptr++ = 0xc0; *nameptr++ = sizeof(*hdr); }
        ans = (struct dns_answer *)nameptr;
        ans->type = UIP_HTONS(DNS_TYPE_AAAA);
        ans->class = UIP_HTONS(DNS_CLASS_IN | 0x8000);
        ans->ttl[0] = 0;
        ans->ttl[1] = UIP_HTONS(120);
        ans->len = UIP_HTONS(sizeof(uip_ipaddr_t));
        uip_ipaddr_copy((uip_ipaddr_t*)ans->ipaddr,&uip_ds6_if.addr_list[i].ipaddr);
        nameptr = (char*)ans+sizeof(*ans);
        acount++;
      }
    }
    hdr->numanswers = uip_htons(acount);
  #else
    hdr->numanswers = UIP_HTONS(1);
    nameptr = encode_name(nameptr,name);
    ... the same assignments, with DNS_TYPE_A and uip_gethostaddr((uip_ipaddr_t*)ans->ipaddr) ...
  #endif
  uip_udp_packet_sendto(resolv_conn, uip_appdata, (nameptr - (unsigned char *)uip_appdata), ...);
  \<close>
  \<^verbatim>\<open>encode_name\<close> writes the text of a name as labels, each the run of characters up
  to a dot or the end behind a byte with their number, and a zero byte after the last:
  \<^verbatim>\<open>
  --nameptr;
  do {
    uint8_t n = 0;
    ++nameptr;
    nptr = (char*)query;
    ++query;
    for(n = 0; *nameptr != '.' && *nameptr != 0; ++nameptr) { *query = *nameptr; ++query; ++n; }
    *nptr = n;
  } while(*nameptr != 0);
  *query++=0;
  \<close>
  Here it reads the name from the buffer it writes to. It writes from offset 12 on and
  reads from \<^verbatim>\<open>name\<close>, which is 13 or more, so that it writes no byte it has yet to
  read; the model reads the text of the name first (\<open>c_string\<close>) and encodes it then.
  Of the buffer the model returns the bytes that are sent.
\<close>

definition c_string :: "u8_t list \<Rightarrow> nat \<Rightarrow> error + u8_t list" where
  "c_string buf q =
     (if 0 \<in> set (drop q buf) then Inr (takeWhile (\<lambda>b. b \<noteq> 0) (drop q buf))
      else Inl (OutOfBounds (max q (length buf))))"

function encode_name :: "u8_t list \<Rightarrow> u8_t list" where
  "encode_name nm =
     (let l = takeWhile (\<lambda>b. b \<noteq> 0x2E) nm; rest = dropWhile (\<lambda>b. b \<noteq> 0x2E) nm
      in of_nat (length l) # l @ (if rest = [] then [0] else encode_name (tl rest)))"
  by pat_completeness auto
termination
proof (relation "measure length")
  show "wf (measure length)" by simp
next
  fix nm x xa :: "u8_t list"
  assume "x = takeWhile (\<lambda>b. b \<noteq> 0x2E) nm" and "xa = dropWhile (\<lambda>b. b \<noteq> 0x2E) nm"
    and "xa \<noteq> []"
  then have "length (tl xa) < length xa" and "length xa \<le> length nm"
    by (simp_all add: length_dropWhile_le)
  then show "(tl xa, nm) \<in> measure length" by simp
qed

declare encode_name.simps [simp del]

definition mdns_addrs :: "config \<Rightarrow> u8_t list list" where
  "mdns_addrs cfg =
     (if UIP_CONF_IPV6 cfg then
        map snd (filter (\<lambda>(isused, a). isused \<and> (RESOLV_CONF_MDNS_INCLUDE_GLOBAL_V6_ADDRS cfg
                                                  \<or> uip_is_addr_link_local cfg a))
                   (uip_ds6_addr_list cfg))
      else [uip_hostaddr cfg])"

definition dns_answer :: "config \<Rightarrow> u8_t list \<Rightarrow> u8_t list" where
  "dns_answer cfg a =
     be16 (addr_type cfg) @ be16 (DNS_CLASS_IN OR 0x8000) @ be16 0 @ be16 120
       @ be16 (of_nat (addr_size cfg)) @ a"

definition reply :: "config \<Rightarrow> u8_t list \<Rightarrow> u8_t list \<Rightarrow> u8_t list" where
  "reply cfg buf nm =
     (let addrs = mdns_addrs cfg;
          acount = (of_nat (length addrs) :: u8_t);
          nms = encode_name nm # replicate (length addrs - 1) [0xC0, 12]
      in take 2 buf @ [buf ! 2 OR (DNS_FLAG1_RESPONSE OR DNS_FLAG1_AUTHORATIVE), buf ! 3]
           @ be16 0 @ be16 (ucast acount) @ be16 0 @ be16 0
           @ concat (map2 (\<lambda>n a. n @ dns_answer cfg a) nms addrs))"

text \<open>
  The loop over the questions of a request, with the host name \<open>host\<close>, the cursor \<open>q\<close>
  (\<^verbatim>\<open>nameptr\<close>), the pointer \<^verbatim>\<open>name\<close> (\<open>namep\<close>: \<open>None\<close> is the null pointer, \<open>Some p\<close> the
  offset \<open>p\<close> in the datagram) and the number of questions still to look at. Its result is what is
  sent: nothing, or the reply to the first question for the host's name.
\<close>

fun respond :: "config \<Rightarrow> u8_t list \<Rightarrow> u8_t list \<Rightarrow> nat \<Rightarrow> nat option \<Rightarrow> nat \<Rightarrow> error + event list" where
  "respond cfg host buf q namep 0 = Inr []"
| "respond cfg host buf q namep (Suc n) =
     (case skip_name buf q of
        Inl e \<Rightarrow> Inl e
      | Inr (buf', q') \<Rightarrow>
          let namep' = (if buf ! q AND 0xC0 \<noteq> 0 then namep else Some (q + 1)) in
          (case own_question cfg buf' q' of
             Inl e \<Rightarrow> Inl e
           | Inr False \<Rightarrow> respond cfg host buf' (q' + 4) namep' n
           | Inr True \<Rightarrow>
               (case namep' of
                  None \<Rightarrow> Inl NullPointer
                | Some p \<Rightarrow>
                    (case strncasecmp host buf' p of
                       Inl e \<Rightarrow> Inl e
                     | Inr False \<Rightarrow> respond cfg host buf' (q' + 4) namep' n
                     | Inr True \<Rightarrow>
                         (case strcasecmp buf' (p + length host) dot_local of
                            Inl e \<Rightarrow> Inl e
                          | Inr False \<Rightarrow> respond cfg host buf' (q' + 4) namep' n
                          | Inr True \<Rightarrow>
                              (case c_string buf' p of
                                 Inl e \<Rightarrow> Inl e
                               | Inr nm \<Rightarrow> Inr [Reply (reply cfg buf' nm)]))))))"

subsection \<open>The handler of a datagram: \<^verbatim>\<open>newdata\<close>\<close>

text \<open>
  The header is read where the code reads it: the two counts first, of which it keeps
  the low byte (\<^verbatim>\<open>nquestions = (u8_t)uip_htons(hdr->numquestions)\<close>), then the flags,
  then, for a response, the id. A request is left to the responder if the build has
  one, unless it has no question or announces answers, and is ignored otherwise:
  \<^verbatim>\<open>
  if((hdr->flags1==0)&&(hdr->flags2==0)) {
  #if RESOLV_CONF_MDNS_RESPONDER
    if(!nquestions) { return; }
    if(nanswers) { return; }
    ... the loop over the questions ...
    return;
  #endif
    return;
  }
  \<close>
\<close>

definition newdata :: "config \<Rightarrow> u8_t list \<Rightarrow> resolver \<Rightarrow> error + (resolver \<times> event list)" where
  "newdata cfg buf s =
     (case rd16 buf 4 of Inl e \<Rightarrow> Inl e | Inr numquestions \<Rightarrow>
      case rd16 buf 6 of Inl e \<Rightarrow> Inl e | Inr numanswers \<Rightarrow>
      let nquestions = (ucast numquestions :: u8_t);
          nanswers = (ucast numanswers :: u8_t) in
      case rd buf 2 of Inl e \<Rightarrow> Inl e | Inr flags1 \<Rightarrow>
      case rd buf 3 of Inl e \<Rightarrow> Inl e | Inr flags2 \<Rightarrow>
      if flags1 = 0 \<and> flags2 = 0 then
        if RESOLV_CONF_MDNS_RESPONDER cfg then
          if nquestions = 0 then Inr (s, [])
          else if nanswers \<noteq> 0 then Inr (s, [])
          else
            case respond cfg (hostname_bytes s) buf 12 None (unat nquestions) of
              Inl e \<Rightarrow> Inl e
            | Inr evs \<Rightarrow> Inr (s, evs)
        else Inr (s, [])
      else
        case rd16 buf 0 of Inl e \<Rightarrow> Inl e | Inr ident \<Rightarrow>
        let i = unat (RESOLV_DECODE_INDEX ident) in
        if length (names s) \<le> i then Inr (s, [])
        else
          let e = names s ! i in
          if state e = STATE_ASKING then
            if nanswers = 0 then Inr (s, [])
            else
              let e1 = e\<lparr>state := STATE_ERROR, err := flags2 AND DNS_FLAG2_ERR_MASK\<rparr> in
              if err e1 \<noteq> 0 then Inr (s\<lparr>names := (names s)[i := e1]\<rparr>, [Found i None])
              else
                case skip_questions buf 12 (unat nquestions) of Inl x \<Rightarrow> Inl x
                | Inr (buf', q) \<Rightarrow>
                    (case walk_answers cfg buf' q (unat nanswers) of Inl x \<Rightarrow> Inl x
                     | Inr None \<Rightarrow> Inr (s\<lparr>names := (names s)[i := e1]\<rparr>, [])
                     | Inr (Some a) \<Rightarrow>
                         Inr (s\<lparr>names := (names s)[i := e1\<lparr>state := STATE_DONE, ipaddr := a\<rparr>]\<rparr>,
                              [Found i (Some a)]))
          else Inr (s, []))"

subsection \<open>The process\<close>

text \<open>
  The process of the resolver calls the two handlers when the stack has an event for
  its connection:
  \<^verbatim>\<open>
  } else if(ev == tcpip_event) {
    if((uip_udp_conn == resolv_conn)) {
      if(uip_newdata()) { newdata(); }
      if(uip_poll()) { check_entries(); }
    }
  \<close>
  \<open>run\<close> is the course of the resolver through a sequence of such events, \<open>Poll\<close> for
  a run of the driver and \<open>Newdata buf\<close> for the arrival of the datagram \<open>buf\<close>.
\<close>

datatype input = Poll | Newdata "u8_t list"

fun run :: "config \<Rightarrow> input list \<Rightarrow> resolver \<Rightarrow> error + (resolver \<times> event list)" where
  "run cfg [] s = Inr (s, [])"
| "run cfg (Poll # ins) s =
     (let (s1, evs1) = check_entries cfg s in
      case run cfg ins s1 of
        Inl e \<Rightarrow> Inl e
      | Inr (s2, evs2) \<Rightarrow> Inr (s2, evs1 @ evs2))"
| "run cfg (Newdata buf # ins) s =
     (case newdata cfg buf s of
        Inl e \<Rightarrow> Inl e
      | Inr (s1, evs1) \<Rightarrow>
          (case run cfg ins s1 of
             Inl e \<Rightarrow> Inl e
           | Inr (s2, evs2) \<Rightarrow> Inr (s2, evs1 @ evs2)))"

subsection \<open>Running the resolver\<close>

text \<open>
  An IPv4 build without loopback interface and with the defaults of the file:
  \<^verbatim>\<open>RESOLV_CONF_SUPPORTS_MDNS\<close> 1, \<^verbatim>\<open>RESOLV_CONF_MDNS_RESPONDER\<close> as
  \<^verbatim>\<open>RESOLV_CONF_SUPPORTS_MDNS\<close>, \<^verbatim>\<open>RESOLV_CONF_MDNS_INCLUDE_GLOBAL_V6_ADDRS\<close> 0,
  \<^verbatim>\<open>RESOLV_CONF_MAX_RETRIES\<close> 8, \<^verbatim>\<open>RESOLV_CONF_MAX_MDNS_RETRIES\<close> 3, on a host with the
  addresses 192.168.1.2 and fe80::2, link-local addresses being those that begin with
  the bytes \<open>0xFE\<close>, \<open>0x80\<close>; and the state after the \<^verbatim>\<open>memset(names,0,sizeof(names))\<close>
  with which the process starts, for \<^verbatim>\<open>RESOLV_ENTRIES\<close> \<open>k\<close> (4 unless configured),
  \<^verbatim>\<open>seqno\<close> and \<^verbatim>\<open>resolv_hostname\<close> being static variables.
\<close>

definition default_config :: config where
  "default_config =
     \<lparr>UIP_CONF_IPV6 = False, UIP_CONF_LOOPBACK_INTERFACE = False,
      RESOLV_CONF_SUPPORTS_MDNS = True, RESOLV_CONF_MDNS_RESPONDER = True,
      RESOLV_CONF_MDNS_INCLUDE_GLOBAL_V6_ADDRS = False,
      RESOLV_CONF_MAX_RETRIES = 8, RESOLV_CONF_MAX_MDNS_RETRIES = 3,
      uip_hostaddr = [192, 168, 1, 2],
      uip_ds6_addr_list = [(True, [0xFE, 0x80, 0, 0, 0, 0, 0, 0, 0, 0, 0, 0, 0, 0, 0, 2])],
      uip_is_addr_link_local = (\<lambda>a. take 2 a = [0xFE, 0x80])\<rparr>"

definition unused_entry :: namemap where
  "unused_entry =
     \<lparr>state = STATE_UNUSED, tmr = 0, retries = 0, seqno = 0, err = 0, is_mdns = False,
      name = [], ipaddr = []\<rparr>"

definition resolv_init :: "nat \<Rightarrow> resolver" where
  "resolv_init k =
     \<lparr>names = replicate k unused_entry, cur_seqno = 0, resolv_hostname = ''contiki''\<rparr>"

text \<open>Calls of \<^verbatim>\<open>resolv_query\<close> one after the other.\<close>

fun queries :: "config \<Rightarrow> string list \<Rightarrow> resolver \<Rightarrow> error + resolver" where
  "queries cfg [] s = Inr s"
| "queries cfg (nm # nms) s =
     (case resolv_query cfg nm s of Inl e \<Rightarrow> Inl e | Inr s' \<Rightarrow> queries cfg nms s')"

text \<open>
  A table of four entries after 257 queries, whose counter has gone round: the entry
  for \<open>b\<close> is the newest (sequence number 0), the one for \<open>d\<close> the oldest (253).
\<close>

definition wrapped_table :: resolver where
  "wrapped_table =
     \<lparr>names = [unused_entry\<lparr>state := STATE_NEW, seqno := 0, name := ''b''\<rparr>,
               unused_entry\<lparr>state := STATE_NEW, seqno := 253, name := ''d''\<rparr>,
               unused_entry\<lparr>state := STATE_NEW, seqno := 254, name := ''e''\<rparr>,
               unused_entry\<lparr>state := STATE_NEW, seqno := 255, name := ''a''\<rparr>],
      cur_seqno = 1, resolv_hostname = ''contiki''\<rparr>"

text \<open>
  A table whose entry 0 waits for the answer to its question, and a datagram of twelve
  bytes, a header alone: id \<open>0xF1B0\<close> (61872), flags \<open>0x80\<close> (response) and \<open>0x03\<close> (name
  error), no question, one answer announced.
\<close>

definition asking_table :: resolver where
  "asking_table =
     \<lparr>names = [unused_entry\<lparr>state := STATE_ASKING, tmr := 1, name := ''host.example''\<rparr>,
               unused_entry, unused_entry, unused_entry],
      cur_seqno = 1, resolv_hostname = ''contiki''\<rparr>"

definition stray_response :: "u8_t list" where
  "stray_response = [0xF1, 0xB0, 0x80, 0x03, 0, 0, 0, 1, 0, 0, 0, 0]"

text \<open>
  A name of 43 characters, and the table after \<^verbatim>\<open>resolv_query\<close> for it on a fresh table
  of four entries: entry 0 holds its first 33 characters.
\<close>

definition long_name :: string where
  "long_name = ''a-very-long-host-name.subdomain.example.org''"

definition long_name_queried :: resolver where
  "long_name_queried =
     \<lparr>names = [unused_entry\<lparr>state := STATE_NEW, name := ''a-very-long-host-name.subdomain.e''\<rparr>,
               unused_entry, unused_entry, unused_entry],
      cur_seqno = 1, resolv_hostname = ''contiki''\<rparr>"

text \<open>
  A table with two names under way: \<open>a\<close> has been asked three times and waits two ticks
  for its next turn, \<open>b\<close> has just been queued.
\<close>

definition two_pending :: resolver where
  "two_pending =
     \<lparr>names = [unused_entry\<lparr>state := STATE_ASKING, tmr := 2, retries := 2, name := ''a''\<rparr>,
               unused_entry\<lparr>state := STATE_NEW, seqno := 1, name := ''b''\<rparr>,
               unused_entry, unused_entry],
      cur_seqno = 2, resolv_hostname = ''contiki''\<rparr>"

text \<open>
  Two responses to the question for \<open>host.example\<close> sent for entry 0 (id 61616 =
  \<open>0xF0B0\<close>): header with one question and one answer; the question \<open>host.example\<close>
  with type and class; one answer whose name is a pointer to offset 12, of the address
  type and class IN, with a time to live of 60 and an address of the right size.
  The first is for an IPv4 build (type A, address 10.1.2.3), the second for an IPv6
  build (type AAAA, address 2001:db8::1).
\<close>

definition a_response :: "u8_t list" where
  "a_response =
     [0xF0, 0xB0, 0x81, 0x80, 0, 1, 0, 1, 0, 0, 0, 0,
      4, 0x68, 0x6F, 0x73, 0x74, 7, 0x65, 0x78, 0x61, 0x6D, 0x70, 0x6C, 0x65, 0, 0, 1, 0, 1,
      0xC0, 0x0C, 0, 1, 0, 1, 0, 0, 0, 60, 0, 4, 10, 1, 2, 3]"

definition aaaa_response :: "u8_t list" where
  "aaaa_response =
     [0xF0, 0xB0, 0x81, 0x80, 0, 1, 0, 1, 0, 0, 0, 0,
      4, 0x68, 0x6F, 0x73, 0x74, 7, 0x65, 0x78, 0x61, 0x6D, 0x70, 0x6C, 0x65, 0, 0, 28, 0, 1,
      0xC0, 0x0C, 0, 28, 0, 1, 0, 0, 0, 60, 0, 16,
      0x20, 1, 0x0D, 0xB8, 0, 0, 0, 0, 0, 0, 0, 0, 0, 0, 0, 1]"

subsection \<open>Notions used in the statements\<close>

text \<open>
  The test that ends the search loop of \<^verbatim>\<open>resolv_query\<close>:
  \<^verbatim>\<open>(nameptr->state == STATE_UNUSED) || (0==strcmp(nameptr->name,name))\<close>.
\<close>

definition hit :: "string \<Rightarrow> namemap \<Rightarrow> bool" where
  "hit nm e = (state e = STATE_UNUSED \<or> name e = nm)"

text \<open>
  Two states of the resolver whose tables agree, slot by slot, on the name, on the
  mDNS flag and on whether the slot is unused, and whose counters agree.
\<close>

definition same_slots :: "resolver \<Rightarrow> resolver \<Rightarrow> bool" where
  "same_slots s s' =
     (map name (names s') = map name (names s) \<and> map is_mdns (names s') = map is_mdns (names s)
      \<and> map (\<lambda>e. state e = STATE_UNUSED) (names s') = map (\<lambda>e. state e = STATE_UNUSED) (names s)
      \<and> cur_seqno s' = cur_seqno s)"

text \<open>
  For the run of an entry from its query to its failure: an entry \<open>pending\<close> is one
  the driver acts on (\<^verbatim>\<open>state == STATE_NEW || state == STATE_ASKING\<close>); the maxima are
  counted in a \<^verbatim>\<open>u8_t\<close>, so \<open>config_ok\<close> asks them to lie between 1 and 255;
  \<open>entry_ok\<close> is what the driver itself establishes for an entry it is asking for
  (a timer that is not zero, fewer retries than the maximum); \<open>found_for j\<close> picks the
  calls of \<^verbatim>\<open>resolv_found\<close> for entry \<open>j\<close> and \<open>sent_for j\<close> the questions sent for it,
  which are those with the id \<^verbatim>\<open>RESOLV_ENCODE_INDEX(j)\<close>; \<open>questions\<close> is the number of
  questions that the driver has sent for an entry since it was queried, as the
  fields of the entry tell it while the entry is being asked for or has been given up
  by the driver. \<open>remaining\<close>
  counts the runs of the driver that an entry still needs until it is given up, if the
  driver reaches it in each run, and \<open>work cfg j\<close> adds this up over the entries 0 to
  \<open>j\<close>.
\<close>

definition pending :: "namemap \<Rightarrow> bool" where
  "pending e = (state e = STATE_NEW \<or> state e = STATE_ASKING)"

definition config_ok :: "config \<Rightarrow> bool" where
  "config_ok cfg =
     (0 < RESOLV_CONF_MAX_RETRIES cfg \<and> RESOLV_CONF_MAX_RETRIES cfg < 256
      \<and> 0 < RESOLV_CONF_MAX_MDNS_RETRIES cfg \<and> RESOLV_CONF_MAX_MDNS_RETRIES cfg < 256)"

definition entry_ok :: "config \<Rightarrow> namemap \<Rightarrow> bool" where
  "entry_ok cfg e =
     (state e \<noteq> STATE_ASKING \<or> (tmr e \<noteq> 0 \<and> unat (retries e) < max_retries cfg e))"





definition remaining :: "config \<Rightarrow> namemap \<Rightarrow> nat" where
  "remaining cfg e =
     (case state e of
        STATE_NEW \<Rightarrow> 2 + (\<Sum>k = 0 ..< max_retries cfg e. k)
      | STATE_ASKING \<Rightarrow> unat (tmr e) + (\<Sum>k = Suc (unat (retries e)) ..< max_retries cfg e. k)
      | _ \<Rightarrow> 0)"


text \<open>
  What one run of the driver does with an entry it comes to. It sends a question for
  the entry (\<open>asks\<close>) if the entry is new, or is being asked for, its timer runs out in
  this run and the retry that is now counted is not the last; the entry is then as
  \<open>asked\<close> says. It gives an entry up (\<open>gives_up\<close>) whose timer runs out when the retry
  counted is the last. Every entry for which it sends no question it leaves as
  \<open>passed\<close> says: given up, or with its timer counted down, if the entry is being asked
  for, and untouched otherwise. \<open>first_asked\<close> is the index of the first entry of a
  table for which the driver sends a question, and the length of the table if there is
  none.
\<close>

definition asks :: "config \<Rightarrow> namemap \<Rightarrow> bool" where
  "asks cfg e =
     (state e = STATE_NEW
      \<or> (state e = STATE_ASKING \<and> tmr e - 1 = 0 \<and> unat (retries e + 1) \<noteq> max_retries cfg e))"

definition gives_up :: "config \<Rightarrow> namemap \<Rightarrow> bool" where
  "gives_up cfg e =
     (state e = STATE_ASKING \<and> tmr e - 1 = 0 \<and> unat (retries e + 1) = max_retries cfg e)"

definition asked :: "namemap \<Rightarrow> namemap" where
  "asked e =
     (if state e = STATE_NEW then e\<lparr>state := STATE_ASKING, tmr := 1, retries := 0\<rparr>
      else e\<lparr>tmr := retries e + 1, retries := retries e + 1\<rparr>)"

definition passed :: "config \<Rightarrow> namemap \<Rightarrow> namemap" where
  "passed cfg e =
     (if state e \<noteq> STATE_ASKING then e
      else if gives_up cfg e then e\<lparr>tmr := 0, retries := retries e + 1, state := STATE_ERROR\<rparr>
      else e\<lparr>tmr := tmr e - 1\<rparr>)"

definition first_asked :: "config \<Rightarrow> namemap list \<Rightarrow> nat" where
  "first_asked cfg es = length (takeWhile (\<lambda>e. \<not> asks cfg e) es)"

subsection \<open>Datagrams that are complete\<close>

text \<open>
  The wire form of what a response is made of, to say which datagrams hold all that
  their header announces: 16-bit values in network byte order; a name, which is labels
  ended by a zero byte or labels (possibly none) ended by a two-byte compression
  pointer; a question (name, type, class); an answer record (name, the fixed fields of
  \<^verbatim>\<open>struct dns_answer\<close>: type, class, \<^verbatim>\<open>ttl[2]\<close>, length, and as many bytes of
  resource data as the length says); and the twelve bytes of \<^verbatim>\<open>struct dns_hdr\<close>. A
  name is well formed when its labels are and, if it is not ended by a pointer, it
  has at least one label.
\<close>

datatype wire_name = Labels "u8_t list list" | Compressed "u8_t list list" u8_t u8_t

fun name_wire :: "wire_name \<Rightarrow> u8_t list" where
  "name_wire (Labels ls) = wire ls @ [0]"
| "name_wire (Compressed ls p x) = wire ls @ [p, x]"

fun wf_name :: "wire_name \<Rightarrow> bool" where
  "wf_name (Labels ls) = (wf_labels ls \<and> ls \<noteq> [])"
| "wf_name (Compressed ls p x) = (wf_labels ls \<and> p AND 0xC0 \<noteq> 0)"

text \<open>A name that is a compression pointer and nothing else.\<close>

fun pointer_only :: "wire_name \<Rightarrow> bool" where
  "pointer_only (Labels ls) = False"
| "pointer_only (Compressed ls p x) = (ls = [])"

record question =
  q_name :: wire_name
  q_type :: u16_t
  q_class :: u16_t

definition question_wire :: "question \<Rightarrow> u8_t list" where
  "question_wire q = name_wire (q_name q) @ be16 (q_type q) @ be16 (q_class q)"

text \<open>
  A question that the responder answers to, if it is for the host's name: one of class
  IN (the top bit of the class apart) and of type ANY or of the address type of the
  build. And questions among which none that the responder answers to comes before
  the first one whose name begins with a label: the questions in front of that one,
  whose names are compression pointers alone, are all of another class or type.
\<close>

definition answerable :: "config \<Rightarrow> question \<Rightarrow> bool" where
  "answerable cfg q =
     (q_class q AND 0x7FFF = DNS_CLASS_IN \<and> (q_type q = DNS_TYPE_ANY \<or> q_type q = addr_type cfg))"

fun named_in_time :: "config \<Rightarrow> question list \<Rightarrow> bool" where
  "named_in_time cfg [] = True"
| "named_in_time cfg (q # qs) =
     (if pointer_only (q_name q) then \<not> answerable cfg q \<and> named_in_time cfg qs else True)"

record answer =
  a_name :: wire_name
  a_type :: u16_t
  a_class :: u16_t
  a_ttl_hi :: u16_t
  a_ttl_lo :: u16_t
  a_rdata :: "u8_t list"

definition answer_wire :: "answer \<Rightarrow> u8_t list" where
  "answer_wire a =
     name_wire (a_name a) @ be16 (a_type a) @ be16 (a_class a) @ be16 (a_ttl_hi a)
       @ be16 (a_ttl_lo a) @ be16 (of_nat (length (a_rdata a))) @ a_rdata a"

definition wf_answer :: "answer \<Rightarrow> bool" where
  "wf_answer a = (wf_name (a_name a) \<and> length (a_rdata a) < 65536)"

definition dns_hdr_wire :: "u16_t \<Rightarrow> u8_t \<Rightarrow> u8_t \<Rightarrow> u16_t \<Rightarrow> u16_t \<Rightarrow> u16_t \<Rightarrow> u16_t \<Rightarrow> u8_t list" where
  "dns_hdr_wire ident flags1 flags2 numquestions numanswers numauthrr numextrarr =
     be16 ident @ [flags1, flags2] @ be16 numquestions @ be16 numanswers
       @ be16 numauthrr @ be16 numextrarr"

text \<open>
  \<open>a_response\<close> cut off after 40 of its 46 bytes, in the middle of its answer record,
  and \<open>a_response\<close> with an answer count of 2 but the one answer it has.
\<close>

definition truncated_response :: "u8_t list" where
  "truncated_response =
     [0xF0, 0xB0, 0x81, 0x80, 0, 1, 0, 1, 0, 0, 0, 0,
      4, 0x68, 0x6F, 0x73, 0x74, 7, 0x65, 0x78, 0x61, 0x6D, 0x70, 0x6C, 0x65, 0, 0, 1, 0, 1,
      0xC0, 0x0C, 0, 1, 0, 1, 0, 0, 0, 60]"

definition overcounted_response :: "u8_t list" where
  "overcounted_response =
     [0xF0, 0xB0, 0x81, 0x80, 0, 1, 0, 2, 0, 0, 0, 0,
      4, 0x68, 0x6F, 0x73, 0x74, 7, 0x65, 0x78, 0x61, 0x6D, 0x70, 0x6C, 0x65, 0, 0, 1, 0, 1,
      0xC0, 0x0C, 0, 1, 0, 1, 0, 0, 0, 60, 0, 4, 10, 1, 2, 3]"

text \<open>
  A response to entry 0 with a question for the root name, which is a zero byte and
  nothing else, and an answer without resource data whose name is a pointer.
\<close>

definition root_response :: "u8_t list" where
  "root_response =
     [0xF0, 0xB0, 0x81, 0x80, 0, 1, 0, 1, 0, 0, 0, 0,
      0, 0, 1, 0, 1,
      0xC0, 0x0C, 0, 1, 0, 1, 0, 0, 0, 60, 0, 0]"

text \<open>
  Two requests, each a header that announces one question and the question, of type A
  and class IN: in the first the name of the question is a compression pointer alone,
  in the second it is \<open>contiki.local\<close>, the name of the host.
\<close>

definition pointer_request :: "u8_t list" where
  "pointer_request = [0, 0, 0, 0, 0, 1, 0, 0, 0, 0, 0, 0, 0xC0, 0x0C, 0, 1, 0, 1]"

definition own_request :: "u8_t list" where
  "own_request =
     [0, 0, 0, 0, 0, 1, 0, 0, 0, 0, 0, 0,
      7, 0x63, 0x6F, 0x6E, 0x74, 0x69, 0x6B, 0x69, 5, 0x6C, 0x6F, 0x63, 0x61, 0x6C, 0, 0, 1, 0, 1]"

text \<open>
  An answer record that passes the test of \<^verbatim>\<open>newdata\<close>: the address type of the build,
  a class that the build accepts, and resource data of the size of an address.
\<close>

definition usable :: "config \<Rightarrow> answer \<Rightarrow> bool" where
  "usable cfg a =
     (a_type a = addr_type cfg \<and> class_usable cfg (a_class a)
      \<and> length (a_rdata a) = addr_size cfg)"

text \<open>A table with one name that has just been queued, as an mDNS name or not.\<close>

definition one_new :: "bool \<Rightarrow> string \<Rightarrow> resolver" where
  "one_new m nm =
     \<lparr>names = [unused_entry\<lparr>state := STATE_NEW, is_mdns := m, name := nm\<rparr>,
               unused_entry, unused_entry, unused_entry],
      cur_seqno = 1, resolv_hostname = ''contiki''\<rparr>"

section \<open>Properties\<close>

subsection \<open>Length bytes\<close>

lemma len_byte_unat: "n < 64 \<Longrightarrow> unat (of_nat n :: u8_t) = n"
  by (simp add: unat_of_nat)

lemma take_push_disjoint: "take_bit 6 (x :: u8_t) AND push_bit 6 y = 0"
  by (rule bit_eqI) (auto simp add: bit_simps)

lemma len_byte_top: "n < 64 \<Longrightarrow> (of_nat n :: u8_t) AND 0xC0 = 0"
proof -
  assume "n < 64"
  then have "(of_nat n :: u8_t) = take_bit 6 (of_nat n)"
    by (simp add: take_bit_of_nat take_bit_nat_eq_self)
  moreover have "(0xC0 :: u8_t) = push_bit 6 3" by simp
  ultimately show ?thesis
    using take_push_disjoint [of "of_nat n" 3] by simp
qed

lemma len_byte_zero: "0 < n \<Longrightarrow> n < 64 \<Longrightarrow> (of_nat n :: u8_t) \<noteq> 0"
  using len_byte_unat [of n] by auto

lemma wire_Cons: "wire (l # ls) = wire_label l @ wire ls"
  by (simp add: wire_def)

subsection \<open>\<^verbatim>\<open>parse_name\<close> on a name that is in the datagram\<close>

lemma parse_name_pointer_step:
  "t AND 0xC0 \<noteq> 0 \<Longrightarrow>
   parse_name (pre @ t # post) (length pre) = Inr (pre @ 0 # post, length pre + 2)"
  by (subst parse_name.simps) simp

lemma parse_name_last_label:
  "wf_label l \<Longrightarrow>
   parse_name (pre @ wire_label l @ 0 # post) (length pre) =
     Inr (pre @ (0x2E # l) @ 0 # post, length pre + 1 + length l + 1)"
  by (subst parse_name.simps)
     (simp add: wire_label_def wf_label_def len_byte_unat len_byte_top Let_def nth_append)

lemma parse_name_label_step:
  "wf_label l \<Longrightarrow> b \<noteq> 0 \<Longrightarrow>
   parse_name (pre @ wire_label l @ b # rest) (length pre) =
     parse_name ((pre @ 0x2E # l) @ b # rest) (length (pre @ 0x2E # l))"
  by (subst parse_name.simps)
     (simp add: wire_label_def wf_label_def len_byte_unat len_byte_top Let_def nth_append)

lemma parse_name_labels:
  "wf_labels ls \<Longrightarrow> ls \<noteq> [] \<Longrightarrow> t = 0 \<or> t AND 0xC0 \<noteq> 0 \<Longrightarrow>
   parse_name (pre @ wire ls @ t # post) (length pre) =
     Inr (pre @ 0x2E # dotted ls @ 0 # post,
          length pre + length (wire ls) + (if t = 0 then 1 else 2))"
proof (induction ls arbitrary: pre)
  case Nil
  then show ?case by simp
next
  case (Cons l ls)
  from Cons.prems have wl: "wf_label l" and wls: "wf_labels ls"
    by (simp_all add: wf_labels_def)
  show ?case
  proof (cases ls)
    case Nil
    show ?thesis
    proof (cases "t = 0")
      case True
      with Nil wl show ?thesis
        using parse_name_last_label [of l pre post]
        by (simp add: wire_def wire_label_def)
    next
      case False
      with Cons.prems have pt: "t AND 0xC0 \<noteq> 0" by simp
      have "parse_name (pre @ wire_label l @ t # post) (length pre) =
            parse_name ((pre @ 0x2E # l) @ t # post) (length (pre @ 0x2E # l))"
        using wl False by (rule parse_name_label_step)
      also have "\<dots> = Inr ((pre @ 0x2E # l) @ 0 # post, length (pre @ 0x2E # l) + 2)"
        using pt by (rule parse_name_pointer_step)
      finally show ?thesis
        using Nil False by (simp add: wire_def wire_label_def)
    qed
  next
    case (Cons l' ls')
    from wls Cons have wl': "wf_label l'" by (simp add: wf_labels_def)
    obtain rest where rest: "wire ls @ t # post = of_nat (length l') # rest"
      using Cons by (simp add: wire_def wire_label_def)
    have nz: "(of_nat (length l') :: u8_t) \<noteq> 0"
      using wl' by (simp add: wf_label_def len_byte_zero)
    have "parse_name (pre @ wire (l # ls) @ t # post) (length pre) =
          parse_name (pre @ wire_label l @ of_nat (length l') # rest) (length pre)"
      by (simp add: wire_Cons rest)
    also have "\<dots> = parse_name ((pre @ 0x2E # l) @ of_nat (length l') # rest)
                       (length (pre @ 0x2E # l))"
      using wl nz by (rule parse_name_label_step)
    also have "\<dots> = parse_name ((pre @ 0x2E # l) @ wire ls @ t # post) (length (pre @ 0x2E # l))"
      by (simp add: rest)
    also have "\<dots> = Inr ((pre @ 0x2E # l) @ 0x2E # dotted ls @ 0 # post,
          length (pre @ 0x2E # l) + length (wire ls) + (if t = 0 then 1 else 2))"
      using wls Cons Cons.prems(3) by (intro Cons.IH) simp_all
    finally show ?thesis
      using Cons by (simp add: wire_Cons wire_label_def)
  qed
qed

lemma top_bits_nonzero: "(p :: u8_t) AND 0xC0 = 0xC0 \<Longrightarrow> p AND 0xC0 \<noteq> 0"
  by auto

text \<open>
  C9. A byte with its two top bits set, met where a name begins or where its next label
  would begin, ends the skipping two bytes further on. \<^verbatim>\<open>newdata\<close> finds a pointer at
  the beginning of a name itself and leaves the datagram as it is; \<^verbatim>\<open>parse_name\<close>
  finds one after the labels \<open>ls\<close> (and, called on one, at the beginning). In each case
  the cursor ends exactly two bytes after the pointer byte, whatever the second byte of
  the pointer and the rest of the datagram (\<open>pre\<close>, \<open>post\<close>) hold: the target of the
  pointer plays no part. An answer whose name is only a pointer is the case \<open>ls = []\<close>.
\<close>

theorem skip_name_pointer:
  assumes "wf_labels ls" and "p AND 0xC0 = 0xC0"
  shows "skip_name (pre @ wire ls @ p # post) (length pre) =
           Inr (if ls = [] then pre @ p # post else pre @ 0x2E # dotted ls @ 0 # post,
                length pre + length (wire ls) + 2)
         \<and> parse_name (pre @ p # post) (length pre) = Inr (pre @ 0 # post, length pre + 2)"
proof -
  from assms(2) have pt: "p AND 0xC0 \<noteq> 0" by (rule top_bits_nonzero)
  have start: "parse_name (pre @ p # post) (length pre) = Inr (pre @ 0 # post, length pre + 2)"
    using pt by (rule parse_name_pointer_step)
  show ?thesis
  proof (cases ls)
    case Nil
    with pt start show ?thesis
      by (simp add: skip_name_def wire_def)
  next
    case (Cons l ls')
    with assms(1) have "wf_label l" by (simp add: wf_labels_def)
    then have first: "(pre @ wire ls @ p # post) ! length pre AND 0xC0 = 0"
      using Cons by (simp add: wire_Cons wire_label_def wf_label_def len_byte_top nth_append)
    have "skip_name (pre @ wire ls @ p # post) (length pre) =
          parse_name (pre @ wire ls @ p # post) (length pre)"
      using first by (simp add: skip_name_def)
    also have "\<dots> = Inr (pre @ 0x2E # dotted ls @ 0 # post,
                          length pre + length (wire ls) + (if p = 0 then 1 else 2))"
      using assms(1) Cons pt by (intro parse_name_labels) simp_all
    finally show ?thesis
      using pt start Cons by auto
  qed
qed

theorem skip_name_pointer_witness:
  "skip_name [3, 0x77, 0x77, 0x77, 0xC0, 0x0C, 9] 0 = Inr ([0x2E, 0x77, 0x77, 0x77, 0, 0x0C, 9], 6)
   \<and> parse_name [0xC0, 0x0C, 9] 0 = Inr ([0, 0x0C, 9], 2)"
proof -
  have 1: "wf_labels [[0x77, 0x77, 0x77]]"
    by (simp add: wf_labels_def wf_label_def)
  have 2: "(0xC0 :: u8_t) AND 0xC0 = 0xC0"
    by simp
  show ?thesis
    using skip_name_pointer [OF 1 2, of "[]" "[0x0C, 9]"]
    by (simp add: wire_def wire_label_def)
qed



subsection \<open>\<^verbatim>\<open>resolv_lookup\<close>\<close>

lemma strip_dots_eq: "strip_dots nm = rev (dropWhile (\<lambda>c. c = CHR ''.'') (rev nm))"
proof (induction nm rule: strip_dots.induct)
  case (1 nm)
  show ?case
  proof (cases "nm \<noteq> [] \<and> last nm = CHR ''.''")
    case True
    then obtain xs where nm: "nm = xs @ [CHR ''.'']"
      by (metis append_butlast_last_id)
    with 1 True show ?thesis
      by (subst strip_dots.simps) simp
  next
    case False
    then show ?thesis
      by (subst strip_dots.simps) (cases nm rule: rev_cases, auto)
  qed
qed

lemma lookup_scan_Some:
  "lookup_scan nm es = Some a \<Longrightarrow>
   \<exists>e \<in> set es. state e = STATE_DONE \<and> name e = nm \<and> ipaddr e = a"
  by (induction es) (auto split: if_splits)

lemma lookup_scan_None:
  "lookup_scan nm es = None \<longleftrightarrow> (\<forall>e \<in> set es. \<not> (state e = STATE_DONE \<and> name e = nm))"
  by (induction es) auto

text \<open>
  Without the loopback interface \<^verbatim>\<open>resolv_lookup\<close> answers from the table alone: an
  address exactly when an entry with the name, stripped of its trailing dots, is done.
\<close>

lemma resolv_lookup_table:
  assumes "\<not> UIP_CONF_LOOPBACK_INTERFACE cfg" and "without_dots 32 nm0 = Inr nm"
  shows "resolv_lookup cfg nm0 s = Inr (lookup_scan nm (names s))"
    and "(\<exists>a. resolv_lookup cfg nm0 s = Inr (Some a)) \<longleftrightarrow>
         (\<exists>e \<in> set (names s). state e = STATE_DONE \<and> name e = nm)"
proof -
  show eq: "resolv_lookup cfg nm0 s = Inr (lookup_scan nm (names s))"
    using assms by (simp add: resolv_lookup_def)
  show "(\<exists>a. resolv_lookup cfg nm0 s = Inr (Some a)) \<longleftrightarrow>
        (\<exists>e \<in> set (names s). state e = STATE_DONE \<and> name e = nm)"
    using lookup_scan_None [of nm "names s"] lookup_scan_Some [of nm "names s"]
    by (auto simp add: eq)
qed

text \<open>
  C3. With \<^verbatim>\<open>UIP_CONF_LOOPBACK_INTERFACE\<close> the test \<^verbatim>\<open>if(strcmp(name,"localhost"))\<close> holds
  for every name but \<open>localhost\<close>: on a table that holds nothing, a name that was never
  queried gets the loopback address, and \<open>localhost\<close> itself is looked up in the
  table and not found.
\<close>

theorem resolv_lookup_loopback_inverted:
  "resolv_lookup (default_config\<lparr>UIP_CONF_LOOPBACK_INTERFACE := True\<rparr>) ''example.com''
     (resolv_init 4) = Inr (Some [127, 0, 0, 1])
   \<and> resolv_lookup (default_config\<lparr>UIP_CONF_LOOPBACK_INTERFACE := True\<rparr>) ''localhost''
     (resolv_init 4) = Inr None"
  by (simp add: resolv_lookup_def without_dots_def default_config_def loopback_def
      resolv_init_def unused_entry_def numeral_eq_Suc)

subsection \<open>\<^verbatim>\<open>resolv_query\<close>: the entry that is overwritten\<close>

text \<open>
  C4. \<open>wrapped_table\<close> is what 257 calls of \<^verbatim>\<open>resolv_query\<close> leave of a table of four
  entries. All its entries are in use and none has the name \<open>c\<close>. Their ages modulo
  256 are 1, 4, 3 and 2, so the oldest is entry 1. \<^verbatim>\<open>resolv_query\<close> compares the
  differences as integers (1, -252, -253 and -254) and overwrites entry 0, the one
  that was queried last.
\<close>

theorem resolv_query_evicts_newest_after_wrap:
  "queries default_config
     (concat (replicate 51 [''a'', ''b'', ''c'', ''d'', ''e'']) @ [''a'', ''b''])
     (resolv_init 4) = Inr wrapped_table
   \<and> map (\<lambda>e. cur_seqno wrapped_table - seqno e) (names wrapped_table) = [1, 4, 3, 2]
   \<and> query_index ''c'' wrapped_table = 0
   \<and> resolv_query default_config ''c'' wrapped_table =
       Inr (wrapped_table
              \<lparr>names := (names wrapped_table)
                 [0 := unused_entry\<lparr>state := STATE_NEW, seqno := 1, name := ''c''\<rparr>],
               cur_seqno := 2\<rparr>)"
  by code_simp

subsection \<open>\<^verbatim>\<open>newdata\<close>: responses that are dropped\<close>


text \<open>
  The cast to \<^verbatim>\<open>unsigned char\<close> keeps the low byte of the difference: ids that differ
  by 256 decode to the same index.
\<close>

lemma low_byte_period: "(ucast (x + 256 :: u16_t) :: u8_t) = ucast x"
proof -
  have 1: "unat (x + 256) = (unat x + 256) mod 65536"
    by (simp add: unat_word_ariths)
  have "((n + 256) mod 65536) mod 256 = (n + 256) mod 256" for n :: nat
    by (rule mod_mod_cancel) simp
  then have 2: "((n + 256) mod 65536) mod 256 = n mod 256" for n :: nat
    by simp
  have "unat (ucast (x + 256) :: u8_t) = unat (x + 256) mod 256"
    by (simp add: unsigned_ucast_eq take_bit_eq_mod)
  also have "\<dots> = unat x mod 256"
    by (simp only: 1 2)
  also have "\<dots> = unat (ucast x :: u8_t)"
    by (simp add: unsigned_ucast_eq take_bit_eq_mod)
  finally show ?thesis
    by (simp only: word_unat_eq_iff)
qed

lemma decode_period: "RESOLV_DECODE_INDEX (d + 256) = RESOLV_DECODE_INDEX d"
proof -
  have "d + 256 - 61616 = (d - 61616) + 256"
    by (simp only: diff_add_eq)
  then show ?thesis
    by (simp only: RESOLV_DECODE_INDEX_def low_byte_period)
qed


text \<open>
  C5, as the claim states it, fails: the id 61872 is not the id of any of the four
  entries (these are 61616 to 61619), yet \<^verbatim>\<open>RESOLV_DECODE_INDEX\<close> casts the difference
  to \<^verbatim>\<open>unsigned char\<close> and so decodes it to 0; the response is taken for entry 0, which
  becomes \<open>STATE_ERROR\<close>, and \<^verbatim>\<open>resolv_found\<close> is called.
\<close>

theorem newdata_accepts_foreign_id:
  "rd16 stray_response 0 = Inr 61872
   \<and> length (names asking_table) = 4
   \<and> map RESOLV_ENCODE_INDEX [0, 1, 2, 3] = [61616, 61617, 61618, 61619]
   \<and> newdata default_config stray_response asking_table =
       Inr (asking_table\<lparr>names := (names asking_table)
              [0 := (names asking_table ! 0)\<lparr>state := STATE_ERROR, err := 3\<rparr>]\<rparr>,
            [Found 0 None])"
proof -
  have "rd16 stray_response 0 = Inr 61872"
    by (simp add: rd16_def stray_response_def)
  moreover have "length (names asking_table) = 4"
    by (simp add: asking_table_def)
  moreover have "map RESOLV_ENCODE_INDEX [0, 1, 2, 3] = [61616, 61617, 61618, 61619]"
    by (simp add: RESOLV_ENCODE_INDEX_def)
  moreover have "newdata default_config stray_response asking_table =
       Inr (asking_table\<lparr>names := (names asking_table)
              [0 := (names asking_table ! 0)\<lparr>state := STATE_ERROR, err := 3\<rparr>]\<rparr>,
            [Found 0 None])"
    by (simp add: newdata_def rd16_def rd_def stray_response_def asking_table_def
        RESOLV_DECODE_INDEX_def DNS_FLAG2_ERR_MASK_def unused_entry_def)
  ultimately show ?thesis by simp
qed

text \<open>
  C5, amended. A response (flag bytes not both zero, header inside the datagram) is
  dropped, with the table as it was and no call of \<^verbatim>\<open>resolv_found\<close>, when the index
  that the resolver decodes from its id, the low eight bits of the id minus 61616, is
  not below the number of entries, or the entry at that index is not in
  \<open>STATE_ASKING\<close>, or the answer count is zero.
\<close>

theorem newdata_discards:
  assumes "rd16 buf 0 = Inr ident" and "rd buf 2 = Inr flags1" and "rd buf 3 = Inr flags2"
    and "rd16 buf 4 = Inr numquestions" and "rd16 buf 6 = Inr numanswers"
    and "\<not> (flags1 = 0 \<and> flags2 = 0)"
    and "length (names s) \<le> unat (RESOLV_DECODE_INDEX ident)
         \<or> state (names s ! unat (RESOLV_DECODE_INDEX ident)) \<noteq> STATE_ASKING
         \<or> numanswers = 0"
  shows "newdata cfg buf s = Inr (s, [])"
proof -
  from assms(6) have nz: "(flags1 = 0 \<and> flags2 = 0) = False" by simp
  show ?thesis
    unfolding newdata_def using assms(7)
    by (simp only: assms(1-5) sum.case Let_def nz if_False) auto
qed

theorem newdata_discards_witness:
  "newdata default_config [0xF0, 0xB4, 0x80, 0x03, 0, 0, 0, 1, 0, 0, 0, 0] asking_table
     = Inr (asking_table, [])
   \<and> newdata default_config [0xF0, 0xB1, 0x80, 0x03, 0, 0, 0, 1, 0, 0, 0, 0] asking_table
     = Inr (asking_table, [])
   \<and> newdata default_config [0xF0, 0xB0, 0x80, 0x00, 0, 0, 0, 0, 0, 0, 0, 0] asking_table
     = Inr (asking_table, [])"
proof -
  let ?a = "[0xF0, 0xB4, 0x80, 0x03, 0, 0, 0, 1, 0, 0, 0, 0] :: u8_t list"
  let ?b = "[0xF0, 0xB1, 0x80, 0x03, 0, 0, 0, 1, 0, 0, 0, 0] :: u8_t list"
  let ?c = "[0xF0, 0xB0, 0x80, 0x00, 0, 0, 0, 0, 0, 0, 0, 0] :: u8_t list"
  have a: "rd16 ?a 0 = Inr 0xF0B4" "rd ?a 2 = Inr 0x80" "rd ?a 3 = Inr 3"
      "rd16 ?a 4 = Inr 0" "rd16 ?a 6 = Inr 1" "\<not> ((0x80 :: u8_t) = 0 \<and> (3 :: u8_t) = 0)"
      "length (names asking_table) \<le> unat (RESOLV_DECODE_INDEX 0xF0B4)
       \<or> state (names asking_table ! unat (RESOLV_DECODE_INDEX 0xF0B4)) \<noteq> STATE_ASKING
       \<or> (1 :: u16_t) = 0"
    by (simp_all add: rd16_def rd_def asking_table_def RESOLV_DECODE_INDEX_def)
  have b: "rd16 ?b 0 = Inr 0xF0B1" "rd ?b 2 = Inr 0x80" "rd ?b 3 = Inr 3"
      "rd16 ?b 4 = Inr 0" "rd16 ?b 6 = Inr 1"
      "length (names asking_table) \<le> unat (RESOLV_DECODE_INDEX 0xF0B1)
       \<or> state (names asking_table ! unat (RESOLV_DECODE_INDEX 0xF0B1)) \<noteq> STATE_ASKING
       \<or> (1 :: u16_t) = 0"
    by (simp_all add: rd16_def rd_def asking_table_def RESOLV_DECODE_INDEX_def unused_entry_def)
  have c: "rd16 ?c 0 = Inr 0xF0B0" "rd ?c 2 = Inr 0x80" "rd ?c 3 = Inr 0"
      "rd16 ?c 4 = Inr 0" "rd16 ?c 6 = Inr 0" "\<not> ((0x80 :: u8_t) = 0 \<and> (0 :: u8_t) = 0)"
      "length (names asking_table) \<le> unat (RESOLV_DECODE_INDEX 0xF0B0)
       \<or> state (names asking_table ! unat (RESOLV_DECODE_INDEX 0xF0B0)) \<noteq> STATE_ASKING
       \<or> (0 :: u16_t) = 0"
    by (simp_all add: rd16_def rd_def)
  show ?thesis
    using newdata_discards [OF a(1-5) a(6) a(7), of default_config]
      newdata_discards [OF b(1-5) a(6) b(6), of default_config]
      newdata_discards [OF c(1-5) c(6) c(7), of default_config]
    by simp
qed

subsection \<open>\<^verbatim>\<open>check_entries\<close>: one scan of the table\<close>

lemma max_retries_upd [simp]:
  "max_retries cfg (e\<lparr>tmr := t\<rparr>) = max_retries cfg e"
  "max_retries cfg (e\<lparr>retries := r\<rparr>) = max_retries cfg e"
  "max_retries cfg (e\<lparr>state := st\<rparr>) = max_retries cfg e"
  by (simp_all add: max_retries_def uses_mdns_def)

lemma max_retries_bounds: "config_ok cfg \<Longrightarrow> 0 < max_retries cfg e \<and> max_retries cfg e < 256"
  by (simp add: config_ok_def max_retries_def)


lemma tmr_pred_zero: "(t :: u8_t) - 1 = 0 \<longleftrightarrow> t = 1"
  by auto

lemma unat_retries_succ: "unat (r :: u8_t) < m \<Longrightarrow> m < 256 \<Longrightarrow> unat (r + 1) = unat r + 1"
  by (simp add: unat_word_ariths)

lemma check_entries_from_Cons_cases:
  assumes "check_entries_from cfg i (e # es) = (es', evs)"
  obtains
    (idle) r where "\<not> pending e" "check_entries_from cfg (Suc i) es = (r, evs)" "es' = e # r"
  | (start) "state e = STATE_NEW"
      "es' = e\<lparr>state := STATE_ASKING, tmr := 1, retries := 0\<rparr> # es"
      "evs = [Sendto (RESOLV_ENCODE_INDEX i) (uses_mdns cfg e) (name e)]"
  | (wait) r where "state e = STATE_ASKING" "tmr e \<noteq> 1"
      "check_entries_from cfg (Suc i) es = (r, evs)" "es' = e\<lparr>tmr := tmr e - 1\<rparr> # r"
  | (retry) "state e = STATE_ASKING" "tmr e = 1" "unat (retries e + 1) \<noteq> max_retries cfg e"
      "es' = e\<lparr>tmr := retries e + 1, retries := retries e + 1\<rparr> # es"
      "evs = [Sendto (RESOLV_ENCODE_INDEX i) (uses_mdns cfg e) (name e)]"
  | (giveup) r rv where "state e = STATE_ASKING" "tmr e = 1"
      "unat (retries e + 1) = max_retries cfg e"
      "check_entries_from cfg (Suc i) es = (r, rv)"
      "es' = e\<lparr>tmr := 0, retries := retries e + 1, state := STATE_ERROR\<rparr> # r"
      "evs = Found i None # rv"
proof -
  obtain r rv where rest: "check_entries_from cfg (Suc i) es = (r, rv)"
    by (cases "check_entries_from cfg (Suc i) es")
  show thesis
  proof (cases "pending e")
    case False
    with assms rest show ?thesis
      by (intro idle [of r]) (auto simp add: pending_def)
  next
    case True
    show ?thesis
    proof (cases "state e = STATE_ASKING")
      case False
      with True assms show ?thesis
        by (intro start) (auto simp add: pending_def)
    next
      case asking: True
      show ?thesis
      proof (cases "tmr e = 1")
        case False
        with asking assms rest show ?thesis
          by (intro wait [of r]) (auto simp add: Let_def tmr_pred_zero)
      next
        case one: True
        show ?thesis
        proof (cases "unat (retries e + 1) = max_retries cfg e")
          case True
          with asking one assms rest show ?thesis
            by (intro giveup [of r rv]) (auto simp add: Let_def)
        next
          case False
          with asking one assms show ?thesis
            by (intro retry) (auto simp add: Let_def uses_mdns_def)
        qed
      qed
    qed
  qed
qed

lemma resolv_init_4:
  "resolv_init 4 =
     \<lparr>names = [unused_entry, unused_entry, unused_entry, unused_entry], cur_seqno = 0,
       resolv_hostname = ''contiki''\<rparr>"
  by (simp add: resolv_init_def numeral_eq_Suc)


text \<open>
  C7, as the claim states it, fails. \<open>two_pending\<close> is the table after
  \<^verbatim>\<open>resolv_query("a")\<close>, three runs of the driver and \<^verbatim>\<open>resolv_query("b")\<close>. In the next
  run the first entry found in \<open>STATE_ASKING\<close>, entry 0, is acted on (its timer goes
  from 2 to 1) and the scan does not stop at it: it goes on to entry 1, makes it
  \<open>STATE_ASKING\<close> and sends the question for it.
\<close>

theorem check_entries_passes_first_pending:
  "(case resolv_query default_config ''a'' (resolv_init 4) of
      Inl e \<Rightarrow> Inl e
    | Inr s \<Rightarrow> resolv_query default_config ''b'' (fst (ticks default_config 3 s)))
     = Inr two_pending
   \<and> check_entries default_config two_pending =
       (two_pending
          \<lparr>names :=
             [unused_entry\<lparr>state := STATE_ASKING, tmr := 1, retries := 2, name := ''a''\<rparr>,
              unused_entry\<lparr>state := STATE_ASKING, tmr := 1, seqno := 1, name := ''b''\<rparr>,
              unused_entry, unused_entry]\<rparr>,
        [Sendto 61617 False ''b''])"
proof -
  have "(case resolv_query default_config ''a'' (resolv_init 4) of
      Inl e \<Rightarrow> Inl e
    | Inr s \<Rightarrow> resolv_query default_config ''b'' (fst (ticks default_config 3 s)))
     = Inr two_pending"
    by (simp add: resolv_init_4 resolv_query_def without_dots_def query_index_def
        unused_entry_def default_config_def check_entries_def two_pending_def
        local_suffix_def max_retries_def uses_mdns_def numeral_3_eq_3)
  moreover have "check_entries default_config two_pending =
       (two_pending
          \<lparr>names :=
             [unused_entry\<lparr>state := STATE_ASKING, tmr := 1, retries := 2, name := ''a''\<rparr>,
              unused_entry\<lparr>state := STATE_ASKING, tmr := 1, seqno := 1, name := ''b''\<rparr>,
              unused_entry, unused_entry]\<rparr>,
        [Sendto 61617 False ''b''])"
    by (simp add: check_entries_def two_pending_def unused_entry_def default_config_def
        RESOLV_ENCODE_INDEX_def uses_mdns_def max_retries_def)
  ultimately show ?thesis by simp
qed

text \<open>
  One run of the driver, entry by entry: it passes the entries in front of the first
  one it has a question to send for, sends that question, and stops.
\<close>

lemma first_asked_Cons:
  "first_asked cfg (e # es) = (if asks cfg e then 0 else Suc (first_asked cfg es))"
  by (simp add: first_asked_def)

lemma check_entries_from_scan:
  "check_entries_from cfg i es =
     (map (passed cfg) (take (first_asked cfg es) es)
        @ (case drop (first_asked cfg es) es of [] \<Rightarrow> [] | e # rest \<Rightarrow> asked e # rest),
      map (\<lambda>(k, e). Found k None)
          (filter (\<lambda>(k, e). gives_up cfg e) (enumerate i (take (first_asked cfg es) es)))
        @ (case drop (first_asked cfg es) es of
             [] \<Rightarrow> []
           | e # rest \<Rightarrow>
               [Sendto (RESOLV_ENCODE_INDEX (i + first_asked cfg es)) (uses_mdns cfg e) (name e)]))"
proof (induction es arbitrary: i)
  case Nil
  show ?case by (simp add: first_asked_def)
next
  case (Cons e es)
  obtain es' evs where run: "check_entries_from cfg i (e # es) = (es', evs)"
    by (cases "check_entries_from cfg i (e # es)")
  from run show ?case
  proof (cases rule: check_entries_from_Cons_cases)
    case (idle r)
    then have "\<not> asks cfg e" "\<not> gives_up cfg e" "passed cfg e = e"
      by (auto simp add: asks_def gives_up_def passed_def pending_def)
    with idle Cons.IH [of "Suc i"] run show ?thesis
      by (simp add: first_asked_Cons del: check_entries_from.simps cong: list.case_cong)
  next
    case start
    then have "asks cfg e" "asked e = e\<lparr>state := STATE_ASKING, tmr := 1, retries := 0\<rparr>"
      by (simp_all add: asks_def asked_def)
    with start run show ?thesis
      by (simp add: first_asked_Cons del: check_entries_from.simps cong: list.case_cong)
  next
    case (wait r)
    then have "\<not> asks cfg e" "\<not> gives_up cfg e" "passed cfg e = e\<lparr>tmr := tmr e - 1\<rparr>"
      by (auto simp add: asks_def gives_up_def passed_def tmr_pred_zero)
    with wait Cons.IH [of "Suc i"] run show ?thesis
      by (simp add: first_asked_Cons del: check_entries_from.simps cong: list.case_cong)
  next
    case retry
    then have "asks cfg e" "asked e = e\<lparr>tmr := retries e + 1, retries := retries e + 1\<rparr>"
      by (simp_all add: asks_def asked_def)
    with retry run show ?thesis
      by (simp add: first_asked_Cons del: check_entries_from.simps cong: list.case_cong)
  next
    case (giveup r rv)
    then have "\<not> asks cfg e" "gives_up cfg e"
      "passed cfg e = e\<lparr>tmr := 0, retries := retries e + 1, state := STATE_ERROR\<rparr>"
      by (auto simp add: asks_def gives_up_def passed_def)
    with giveup Cons.IH [of "Suc i"] run show ?thesis
      by (simp add: first_asked_Cons del: check_entries_from.simps cong: list.case_cong)
  qed
qed

lemma one_Sendto:
  "length (filter is_Sendto
             (map (\<lambda>(k, e). Found k None) xs
                @ (case ys of [] \<Rightarrow> [] | e # rest \<Rightarrow> [Sendto (f e) (g e) (h e)]))) \<le> 1"
  by (induction xs) (auto split: list.splits)

text \<open>
  C7, amended. A run of the driver stops at the first entry for which it sends a
  question: an entry that is new, or one that is being asked for, whose timer runs out
  in this run and whose retries are not used up; that entry is made \<open>STATE_ASKING\<close> with
  timer 1 and no retries, or has its retries counted up and its timer set to them, and
  the entries behind it are not touched. So a run sends at most one question, whatever
  the size of the table and the number of names under way. The entries in front of
  that one are passed, those under way among them not without being acted on: an
  entry that is being asked for has its timer counted down, and when the timer runs
  out with the last retry the entry is set to \<open>STATE_ERROR\<close> and \<^verbatim>\<open>resolv_found\<close> is
  called for it with the \<^verbatim>\<open>NULL\<close> address. When there is no entry to send a question
  for, all entries are passed in this way.
\<close>

theorem check_entries_one_query:
  "check_entries cfg s =
     (let j = first_asked cfg (names s);
          before = take j (names s);
          rest = drop j (names s)
      in (s\<lparr>names := map (passed cfg) before
                        @ (case rest of [] \<Rightarrow> [] | e # es \<Rightarrow> asked e # es)\<rparr>,
          map (\<lambda>(k, e). Found k None) (filter (\<lambda>(k, e). gives_up cfg e) (enumerate 0 before))
            @ (case rest of
                 [] \<Rightarrow> []
               | e # es \<Rightarrow> [Sendto (RESOLV_ENCODE_INDEX j) (uses_mdns cfg e) (name e)])))
   \<and> length (filter is_Sendto (snd (check_entries cfg s))) \<le> 1"
proof -
  have eq: "check_entries cfg s =
     (let j = first_asked cfg (names s);
          before = take j (names s);
          rest = drop j (names s)
      in (s\<lparr>names := map (passed cfg) before
                        @ (case rest of [] \<Rightarrow> [] | e # es \<Rightarrow> asked e # es)\<rparr>,
          map (\<lambda>(k, e). Found k None) (filter (\<lambda>(k, e). gives_up cfg e) (enumerate 0 before))
            @ (case rest of
                 [] \<Rightarrow> []
               | e # es \<Rightarrow> [Sendto (RESOLV_ENCODE_INDEX j) (uses_mdns cfg e) (name e)])))"
    by (simp add: check_entries_def check_entries_from_scan [of cfg 0 "names s"] Let_def
        del: check_entries_from.simps cong: list.case_cong)
  have "length (filter is_Sendto (snd (check_entries cfg s))) \<le> 1"
    unfolding eq Let_def snd_conv by (rule one_Sendto)
  with eq show ?thesis by simp
qed

subsection \<open>\<^verbatim>\<open>newdata\<close>: the answers of a response\<close>

lemmas newdata_eval = newdata_def rd16_def rd_def RESOLV_DECODE_INDEX_def DNS_FLAG2_ERR_MASK_def
  skip_name_def parse_name.simps ans_usable_def addr_type_def DNS_TYPE_A_def DNS_TYPE_AAAA_def
  class_usable_def DNS_CLASS_IN_def addr_size_def rd_bytes_def

text \<open>
  In an IPv4 build no answer record passes the test: \<open>0x7FFF == DNS_CLASS_IN\<close> is 0, and
  the class masked with 0 is 0. So the loop over the answers never finds an address,
  and \<^verbatim>\<open>newdata\<close> never calls \<^verbatim>\<open>resolv_found\<close> with one.
\<close>

lemma ans_usable_ipv4: "\<not> UIP_CONF_IPV6 cfg \<Longrightarrow> ans_usable cfg buf q \<noteq> Inr True"
  by (simp add: ans_usable_def class_usable_def DNS_CLASS_IN_def split: sum.splits)

lemma walk_answers_ipv4: "\<not> UIP_CONF_IPV6 cfg \<Longrightarrow> walk_answers cfg buf q n \<noteq> Inr (Some a)"
proof (induction n arbitrary: buf q)
  case 0
  then show ?case by simp
next
  case (Suc n)
  then show ?case
    using ans_usable_ipv4 [of cfg]
    by (auto split: sum.splits bool.splits prod.splits)
qed

lemma respond_events:
  "respond cfg host buf q namep n = Inr evs \<Longrightarrow> list_all is_Reply evs"
  by (induction n arbitrary: buf q namep)
     (auto simp add: Let_def split: sum.splits prod.splits bool.splits option.splits)

lemma respond_no_Found:
  assumes "respond cfg host buf q namep n = Inr evs"
  shows "Found i a \<notin> set evs"
  using respond_events [OF assms] by (auto simp add: list_all_iff)

lemma newdata_ipv4_no_address:
  assumes "\<not> UIP_CONF_IPV6 cfg" and "newdata cfg buf s = Inr (s', evs)"
  shows "Found i (Some a) \<notin> set evs"
  using assms walk_answers_ipv4 [OF assms(1)]
  by (auto simp add: newdata_def Let_def dest: respond_no_Found
      split: sum.splits if_splits prod.splits option.splits)

text \<open>
  The IPv6 build, whose test is parenthesised, takes the address of the first answer
  of \<open>aaaa_response\<close>: the entry is done and \<^verbatim>\<open>resolv_found\<close> is called once, with
  the address.
\<close>

lemma newdata_ipv6_example:
  "newdata (default_config\<lparr>UIP_CONF_IPV6 := True\<rparr>) aaaa_response asking_table =
     Inr (asking_table
            \<lparr>names := (names asking_table)
               [0 := (names asking_table ! 0)
                  \<lparr>state := STATE_DONE,
                   ipaddr := [0x20, 1, 0x0D, 0xB8, 0, 0, 0, 0, 0, 0, 0, 0, 0, 0, 0, 1]\<rparr>]\<rparr>,
          [Found 0 (Some [0x20, 1, 0x0D, 0xB8, 0, 0, 0, 0, 0, 0, 0, 0, 0, 0, 0, 1])])"
  by (simp add: newdata_eval default_config_def aaaa_response_def asking_table_def
      unused_entry_def)

text \<open>
  C2. The IPv4 build, as the file stands: \<^verbatim>\<open>resolv_query("host.example")\<close> on a fresh
  table of four entries, a run of the driver, which sends the question under the id
  61616, and the response \<open>a_response\<close>, whose one answer is of type A, class IN and
  length 4. The record is not taken: it is stepped over, the entry is left in
  \<open>STATE_ERROR\<close>, \<^verbatim>\<open>resolv_found\<close> is not called, and \<^verbatim>\<open>resolv_lookup\<close> does not find
  the name.
\<close>

theorem newdata_ipv4_answer_not_taken:
  "resolv_query default_config ''host.example'' (resolv_init 4) =
     Inr (asking_table
            \<lparr>names := (names asking_table)
               [0 := (names asking_table ! 0)\<lparr>state := STATE_NEW, tmr := 0\<rparr>]\<rparr>)
   \<and> check_entries default_config
       (asking_table
          \<lparr>names := (names asking_table)
             [0 := (names asking_table ! 0)\<lparr>state := STATE_NEW, tmr := 0\<rparr>]\<rparr>) =
       (asking_table, [Sendto 61616 False ''host.example''])
   \<and> newdata default_config a_response asking_table =
       Inr (asking_table
              \<lparr>names := (names asking_table)
                 [0 := (names asking_table ! 0)\<lparr>state := STATE_ERROR\<rparr>]\<rparr>, [])
   \<and> resolv_lookup default_config ''host.example''
       (asking_table
          \<lparr>names := (names asking_table)
             [0 := (names asking_table ! 0)\<lparr>state := STATE_ERROR\<rparr>]\<rparr>) = Inr None"
proof -
  have "resolv_query default_config ''host.example'' (resolv_init 4) =
     Inr (asking_table
            \<lparr>names := (names asking_table)
               [0 := (names asking_table ! 0)\<lparr>state := STATE_NEW, tmr := 0\<rparr>]\<rparr>)"
    by (simp add: resolv_init_4 resolv_query_def without_dots_def query_index_def
        unused_entry_def default_config_def asking_table_def local_suffix_def)
  moreover have "check_entries default_config
       (asking_table
          \<lparr>names := (names asking_table)
             [0 := (names asking_table ! 0)\<lparr>state := STATE_NEW, tmr := 0\<rparr>]\<rparr>) =
       (asking_table, [Sendto 61616 False ''host.example''])"
    by (simp add: check_entries_def asking_table_def unused_entry_def default_config_def
        RESOLV_ENCODE_INDEX_def uses_mdns_def max_retries_def)
  moreover have "newdata default_config a_response asking_table =
       Inr (asking_table
              \<lparr>names := (names asking_table)
                 [0 := (names asking_table ! 0)\<lparr>state := STATE_ERROR\<rparr>]\<rparr>, [])"
    by (simp add: newdata_eval default_config_def a_response_def asking_table_def
        unused_entry_def)
  moreover have "resolv_lookup default_config ''host.example''
       (asking_table
          \<lparr>names := (names asking_table)
             [0 := (names asking_table ! 0)\<lparr>state := STATE_ERROR\<rparr>]\<rparr>) = Inr None"
    by (simp add: resolv_lookup_def without_dots_def default_config_def asking_table_def
        unused_entry_def)
  ultimately show ?thesis by simp
qed

subsection \<open>\<^verbatim>\<open>resolv_query\<close>: the same name again\<close>



lemma query_scan_fst:
  "fst (query_scan nm sq es i lseq lseqi) = i + length (takeWhile (\<lambda>e. \<not> hit nm e) es)"
  by (induction es arbitrary: i lseq lseqi) (simp_all add: hit_def)

lemma query_scan_snd:
  "snd (query_scan nm sq es i lseq lseqi) = lseqi
   \<or> (i \<le> snd (query_scan nm sq es i lseq lseqi)
      \<and> snd (query_scan nm sq es i lseq lseqi) < i + length (takeWhile (\<lambda>e. \<not> hit nm e) es))"
proof (induction es arbitrary: i lseq lseqi)
  case Nil
  then show ?case by simp
next
  case (Cons e es)
  show ?case
  proof (cases "hit nm e")
    case True
    then show ?thesis by (simp add: hit_def)
  next
    case False
    show ?thesis
    proof (cases "uint sq - uint (seqno e) > uint lseq")
      case True
      with False Cons.IH [of "Suc i" "sq - seqno e" i] show ?thesis
        by (auto simp add: hit_def)
    next
      case gt: False
      with False Cons.IH [of "Suc i" lseq lseqi] show ?thesis
        by (auto simp add: hit_def)
    qed
  qed
qed

lemma query_index_alt:
  "query_index nm s =
     (if fst (query_scan nm (cur_seqno s) (names s) 0 0 0) = length (names s)
      then snd (query_scan nm (cur_seqno s) (names s) 0 0 0)
      else fst (query_scan nm (cur_seqno s) (names s) 0 0 0))"
  by (simp add: query_index_def split: prod.splits)

lemma query_index_cases:
  assumes "names s \<noteq> []"
  shows "query_index nm s < length (names s)"
    and "\<forall>j < query_index nm s. \<not> hit nm (names s ! j)"
proof -
  define i where "i = query_index nm s"
  let ?es = "names s"
  let ?r = "query_scan nm (cur_seqno s) ?es 0 0 0"
  let ?t = "takeWhile (\<lambda>e. \<not> hit nm e) ?es"
  have f: "fst ?r = length ?t"
    using query_scan_fst [of nm "cur_seqno s" ?es 0 0 0] by simp
  have sn: "snd ?r = 0 \<or> snd ?r < length ?t"
    using query_scan_snd [of nm "cur_seqno s" ?es 0 0 0] by auto
  have i: "i = (if fst ?r = length ?es then snd ?r else fst ?r)"
    by (simp add: i_def query_index_alt)
  have tl: "length ?t \<le> length ?es"
    by (rule length_takeWhile_le)
  show "query_index nm s < length ?es"
    using i f sn tl assms(1) unfolding i_def by (auto split: if_splits)
  have le: "i \<le> length ?t"
    using i f sn by (auto split: if_splits)
  have "\<not> hit nm (?es ! j)" if "j < i" for j
  proof -
    from that le have j: "j < length ?t" by simp
    then have "?t ! j \<in> set ?t" by simp
    then have "\<not> hit nm (?t ! j)" by (rule set_takeWhileD [THEN conjunct2])
    then show ?thesis using j by (simp add: takeWhile_nth)
  qed
  then show "\<forall>j < query_index nm s. \<not> hit nm (?es ! j)"
    unfolding i_def by blast
qed

lemma first_hit_index:
  assumes "i < length es" and "hit nm (es ! i)" and "\<forall>j < i. \<not> hit nm (es ! j)"
  shows "length (takeWhile (\<lambda>e. \<not> hit nm e) es) = i"
  using assms
proof (induction es arbitrary: i)
  case Nil
  then show ?case by simp
next
  case (Cons e es)
  show ?case
  proof (cases i)
    case 0
    with Cons.prems show ?thesis by simp
  next
    case (Suc k)
    with Cons.prems have "\<not> hit nm e" by auto
    moreover have "length (takeWhile (\<lambda>e. \<not> hit nm e) es) = k"
      using Cons.prems Suc by (intro Cons.IH) auto
    ultimately show ?thesis using Suc by simp
  qed
qed

lemma query_index_first_hit:
  assumes "i < length (names s)" and "hit nm (names s ! i)" and "\<forall>j < i. \<not> hit nm (names s ! j)"
  shows "query_index nm s = i"
proof -
  have "length (takeWhile (\<lambda>e. \<not> hit nm e) (names s)) = i"
    using assms by (rule first_hit_index)
  then have "fst (query_scan nm (cur_seqno s) (names s) 0 0 0) = i"
    using query_scan_fst [of nm "cur_seqno s" "names s" 0 0 0] by simp
  then show ?thesis
    using assms(1) by (simp add: query_index_alt)
qed


lemma check_entries_from_slots:
  "check_entries_from cfg i es = (es', evs) \<Longrightarrow>
   map name es' = map name es \<and> map is_mdns es' = map is_mdns es
   \<and> map (\<lambda>e. state e = STATE_UNUSED) es' = map (\<lambda>e. state e = STATE_UNUSED) es"
  by (induction es arbitrary: i es' evs) (auto simp add: Let_def split: prod.splits if_splits)

lemma check_entries_slots: "check_entries cfg s = (s', evs) \<Longrightarrow> same_slots s s'"
  using check_entries_from_slots [of cfg 0 "names s"]
  by (auto simp add: check_entries_def same_slots_def split: prod.splits)

lemma same_slots_nth:
  assumes "same_slots s s'" and "j < length (names s)"
  shows "name (names s' ! j) = name (names s ! j)"
    and "is_mdns (names s' ! j) = is_mdns (names s ! j)"
    and "hit nm (names s' ! j) = hit nm (names s ! j)"
    and "length (names s') = length (names s)"
proof -
  from assms(1) have n: "map name (names s') = map name (names s)"
    and m: "map is_mdns (names s') = map is_mdns (names s)"
    and u: "map (\<lambda>e. state e = STATE_UNUSED) (names s') = map (\<lambda>e. state e = STATE_UNUSED) (names s)"
    by (simp_all add: same_slots_def)
  from n show len: "length (names s') = length (names s)"
    by (rule map_eq_imp_length_eq)
  from n assms(2) len show nm: "name (names s' ! j) = name (names s ! j)"
    by (metis nth_map)
  from m assms(2) len show "is_mdns (names s' ! j) = is_mdns (names s ! j)"
    by (metis nth_map)
  from u assms(2) len have "(state (names s' ! j) = STATE_UNUSED) = (state (names s ! j) = STATE_UNUSED)"
    by (metis (mono_tags, lifting) nth_map)
  with nm show "hit nm (names s' ! j) = hit nm (names s ! j)"
    by (simp add: hit_def)
qed

lemma map_update_same:
  "f x = f (xs ! i) \<Longrightarrow> map f (xs[i := x]) = map f xs"
  by (induction xs arbitrary: i) (auto split: nat.splits)

lemma newdata_slots: "newdata cfg buf s = Inr (s', evs) \<Longrightarrow> same_slots s s'"
  by (auto simp add: newdata_def Let_def same_slots_def map_update_same
      split: sum.splits if_splits prod.splits option.splits)

lemma same_slots_trans: "same_slots s s1 \<Longrightarrow> same_slots s1 s2 \<Longrightarrow> same_slots s s2"
  by (simp add: same_slots_def)

lemma run_slots: "run cfg ins s = Inr (s', evs) \<Longrightarrow> same_slots s s'"
proof (induction ins arbitrary: s s' evs)
  case Nil
  then show ?case by (simp add: same_slots_def)
next
  case (Cons i ins)
  show ?case
  proof (cases i)
    case Poll
    obtain s1 ev1 where 1: "check_entries cfg s = (s1, ev1)"
      by (cases "check_entries cfg s")
    with Cons.prems Poll obtain ev2 where "run cfg ins s1 = Inr (s', ev2)"
      by (auto split: sum.splits)
    then have "same_slots s1 s'" by (rule Cons.IH)
    with check_entries_slots [OF 1] show ?thesis by (rule same_slots_trans)
  next
    case (Newdata buf)
    with Cons.prems obtain s1 ev1 ev2 where 1: "newdata cfg buf s = Inr (s1, ev1)"
      and 2: "run cfg ins s1 = Inr (s', ev2)"
      by (auto split: sum.splits)
    from 2 have "same_slots s1 s'" by (rule Cons.IH)
    with newdata_slots [OF 1] show ?thesis by (rule same_slots_trans)
  qed
qed

text \<open>
  C8, as the claim states it, fails: \<^verbatim>\<open>resolv_query\<close> keeps the first 33 characters of a
  name and no terminator if the name has more. \<open>long_name\<close> has 43 characters. The first
  \<^verbatim>\<open>resolv_query\<close> for it writes entry 0 of a fresh table; the second does not find the
  name in entry 0, whose string ends after 33 characters, and writes entry 1: two
  entries are under way for the one name.
\<close>

theorem resolv_query_long_name_twice:
  "length long_name = 43
   \<and> resolv_query default_config long_name (resolv_init 4) = Inr long_name_queried
   \<and> resolv_query default_config long_name long_name_queried =
       Inr (long_name_queried
              \<lparr>names := (names long_name_queried)
                 [1 := unused_entry\<lparr>state := STATE_NEW, seqno := 1, name := take 33 long_name\<rparr>],
               cur_seqno := 2\<rparr>)
   \<and> map state (names long_name_queried) = [STATE_NEW, STATE_UNUSED, STATE_UNUSED, STATE_UNUSED]"
proof -
  have "resolv_query default_config long_name (resolv_init 4) = Inr long_name_queried"
    by (simp add: resolv_init_4 resolv_query_def without_dots_def query_index_def
        unused_entry_def default_config_def long_name_queried_def long_name_def local_suffix_def)
  moreover have "resolv_query default_config long_name long_name_queried =
       Inr (long_name_queried
              \<lparr>names := (names long_name_queried)
                 [1 := unused_entry\<lparr>state := STATE_NEW, seqno := 1, name := take 33 long_name\<rparr>],
               cur_seqno := 2\<rparr>)"
    by (simp add: resolv_query_def without_dots_def query_index_def
        unused_entry_def default_config_def long_name_queried_def long_name_def local_suffix_def)
  ultimately show ?thesis
    by (simp add: long_name_def long_name_queried_def unused_entry_def)
qed

text \<open>
  C8, amended. For a name that fits the arrays of the resolver, which is one that is not
  empty, has no more than 32 characters once its trailing dots are removed, and no
  more than 33 with them: after \<^verbatim>\<open>resolv_query\<close> for the name, and any runs of the
  driver and arrivals of datagrams in any order, a second \<^verbatim>\<open>resolv_query\<close> for the same
  name finds the slot the first call wrote, which still holds the name, and changes
  nothing but that entry's state, which becomes \<open>STATE_NEW\<close>, its sequence number,
  which becomes the value of the counter at this call, and the counter: no other slot
  is written.
\<close>

theorem resolv_query_again:
  assumes "names s \<noteq> []"
    and "without_dots 33 nm0 = Inr nm" and "length nm \<le> 32"
    and "resolv_query cfg nm0 s = Inr s1"
    and "run cfg ins s1 = Inr (s1', evs)"
  shows "query_index nm s < length (names s)
    \<and> query_index nm s1' = query_index nm s
    \<and> name (names s1' ! query_index nm s) = nm
    \<and> resolv_query cfg nm0 s1' =
        Inr (s1'\<lparr>names := (names s1')
                   [query_index nm s := (names s1' ! query_index nm s)
                      \<lparr>state := STATE_NEW, seqno := cur_seqno s1'\<rparr>],
                 cur_seqno := cur_seqno s1' + 1\<rparr>)"
proof -
  define i where "i = query_index nm s"
  define mdns where "mdns = (RESOLV_CONF_SUPPORTS_MDNS cfg \<and> length nm > length local_suffix
                          \<and> drop (length nm - length local_suffix) nm = local_suffix)"
  have i: "i < length (names s)" and before: "\<forall>j < i. \<not> hit nm (names s ! j)"
    using query_index_cases [OF assms(1), of nm] by (simp_all add: i_def)
  from assms(3) have whole: "take 33 nm = nm"
    by simp
  from assms(2,4)
  have s1: "s1 = s\<lparr>names := (names s)[i := (names s ! i)\<lparr>is_mdns := mdns, name := nm,
                  state := STATE_NEW, seqno := cur_seqno s\<rparr>], cur_seqno := cur_seqno s + 1\<rparr>"
    by (simp add: resolv_query_def Let_def i_def mdns_def whole)
  have slots: "same_slots s1 s1'"
    using assms(5) by (rule run_slots)
  have len1: "length (names s1) = length (names s)"
    by (simp add: s1)
  have i1: "i < length (names s1)" using i len1 by simp
  have name1: "name (names s1 ! i) = nm" and mdns1: "is_mdns (names s1 ! i) = mdns"
    using i by (simp_all add: s1)
  have name1': "name (names s1' ! i) = nm" and mdns1': "is_mdns (names s1' ! i) = mdns"
    using same_slots_nth(1,2) [OF slots i1] name1 mdns1 by simp_all
  have hit_i: "hit nm (names s1' ! i)"
    using name1' by (simp add: hit_def)
  have before': "\<forall>j < i. \<not> hit nm (names s1' ! j)"
  proof (intro allI impI)
    fix j assume j: "j < i"
    then have "j < length (names s1)" using i1 by simp
    then have "hit nm (names s1' ! j) = hit nm (names s1 ! j)"
      by (rule same_slots_nth(3) [OF slots])
    also have "names s1 ! j = names s ! j"
      using j by (simp add: s1)
    finally show "\<not> hit nm (names s1' ! j)"
      using before j by simp
  qed
  have len1': "length (names s1') = length (names s)"
    using same_slots_nth(4) [OF slots i1] len1 by simp
  have idx: "query_index nm s1' = i"
    using i hit_i before' len1' by (intro query_index_first_hit) simp_all
  have "resolv_query cfg nm0 s1' =
        Inr (s1'\<lparr>names := (names s1')[i := (names s1' ! i)\<lparr>is_mdns := mdns, name := nm,
                  state := STATE_NEW, seqno := cur_seqno s1'\<rparr>], cur_seqno := cur_seqno s1' + 1\<rparr>)"
    using assms(2) by (simp add: resolv_query_def Let_def idx mdns_def whole)
  moreover have "(names s1' ! i)\<lparr>is_mdns := mdns, name := nm, state := STATE_NEW,
                    seqno := cur_seqno s1'\<rparr>
               = (names s1' ! i)\<lparr>state := STATE_NEW, seqno := cur_seqno s1'\<rparr>"
    using name1' mdns1' by simp
  ultimately show ?thesis
    using i idx name1' by (simp add: i_def)
qed

theorem resolv_query_again_witness:
  "resolv_query default_config ''host.example.'' asking_table =
     Inr (asking_table
            \<lparr>names := (names asking_table)
               [0 := (names asking_table ! 0)\<lparr>state := STATE_NEW, seqno := 1\<rparr>],
             cur_seqno := 2\<rparr>)"
proof -
  let ?s1 = "asking_table
               \<lparr>names := (names asking_table)
                  [0 := (names asking_table ! 0)\<lparr>state := STATE_NEW, tmr := 0\<rparr>]\<rparr>"
  have 1: "names (resolv_init 4) \<noteq> []"
    by (simp add: resolv_init_4)
  have 2: "without_dots 33 ''host.example.'' = Inr ''host.example''"
    by (simp add: without_dots_def strip_dots_eq)
  have 3: "length ''host.example'' \<le> 32"
    by simp
  have 4: "resolv_query default_config ''host.example.'' (resolv_init 4) = Inr ?s1"
    by (simp add: resolv_init_4 resolv_query_def 2 query_index_def
        unused_entry_def default_config_def asking_table_def local_suffix_def)
  have 5: "run default_config [Poll] ?s1 = Inr (asking_table, [Sendto 61616 False ''host.example''])"
    by (simp add: check_entries_def asking_table_def unused_entry_def default_config_def
        RESOLV_ENCODE_INDEX_def uses_mdns_def max_retries_def)
  have 6: "query_index ''host.example'' (resolv_init 4) = 0"
    by (simp add: resolv_init_4 query_index_def unused_entry_def)
  have 7: "cur_seqno asking_table = 1"
    by (simp add: asking_table_def)
  show ?thesis
    using resolv_query_again [OF 1 2 3 4 5] by (simp add: 6 7)
qed

subsection \<open>\<^verbatim>\<open>check_entries\<close>: an entry that gets no response\<close>


lemma scan_ok:
  "config_ok cfg \<Longrightarrow> list_all (entry_ok cfg) es \<Longrightarrow> check_entries_from cfg i es = (es', evs)
   \<Longrightarrow> list_all (entry_ok cfg) es'"
proof (induction es arbitrary: i es' evs)
  case Nil
  then show ?case by simp
next
  case (Cons e es)
  have b: "0 < max_retries cfg e" "max_retries cfg e < 256"
    using max_retries_bounds [OF Cons.prems(1), of e] by simp_all
  from Cons.prems(2) have oke: "entry_ok cfg e" and okes: "list_all (entry_ok cfg) es" by simp_all
  note IH = Cons.IH [OF Cons.prems(1) okes]
  from Cons.prems(3) show ?case
  proof (cases rule: check_entries_from_Cons_cases)
    case (idle r)
    then show ?thesis using IH [of "Suc i" r evs] oke by simp
  next
    case start
    have "entry_ok cfg (e\<lparr>state := STATE_ASKING, tmr := 1, retries := 0\<rparr>)"
      using b by (simp add: entry_ok_def)
    with start okes show ?thesis by simp
  next
    case (wait r)
    have "entry_ok cfg (e\<lparr>tmr := tmr e - 1\<rparr>)"
      using oke wait(1,2) by (simp add: entry_ok_def tmr_pred_zero)
    with wait show ?thesis using IH [of "Suc i" r evs] by simp
  next
    case retry
    with oke have r: "unat (retries e) < max_retries cfg e" by (simp add: entry_ok_def)
    then have u: "unat (retries e + 1) = unat (retries e) + 1"
      using b(2) by (rule unat_retries_succ)
    then have nz: "retries e + 1 \<noteq> 0"
      by (metis Suc_eq_plus1 nat.distinct(1) unat_0)
    have "entry_ok cfg (e\<lparr>tmr := retries e + 1, retries := retries e + 1\<rparr>)"
      using retry(3) r u nz by (simp add: entry_ok_def)
    with retry okes show ?thesis by simp
  next
    case (giveup r rv)
    have "entry_ok cfg (e\<lparr>tmr := 0, retries := retries e + 1, state := STATE_ERROR\<rparr>)"
      by (simp add: entry_ok_def)
    with giveup show ?thesis using IH [of "Suc i" r rv] by simp
  qed
qed





lemma remaining_giveup:
  assumes "config_ok cfg" "entry_ok cfg e" "state e = STATE_ASKING" "tmr e = 1"
    "unat (retries e + 1) = max_retries cfg e"
  shows "remaining cfg e = 1"
proof -
  have b: "max_retries cfg e < 256"
    using max_retries_bounds [OF assms(1), of e] by simp
  from assms(2,3) have r: "unat (retries e) < max_retries cfg e" by (simp add: entry_ok_def)
  then have u: "unat (retries e + 1) = unat (retries e) + 1"
    using b by (rule unat_retries_succ)
  with assms(5) have "Suc (unat (retries e)) = max_retries cfg e" by simp
  then show ?thesis
    using assms(3,4) by (simp add: remaining_def)
qed

























subsection \<open>\<^verbatim>\<open>newdata\<close> and the end of the datagram\<close>

lemma be16_value: "(ucast (ucast (drop_bit 8 v) :: u8_t) :: u16_t) * 256 + ucast (ucast v :: u8_t) = v"
proof -
  have hi: "(ucast (ucast (drop_bit 8 v) :: u8_t) :: u16_t) = drop_bit 8 v"
    by (rule bit_word_eqI) (auto simp add: bit_simps dest: bit_imp_le_length)
  have lo: "(ucast (ucast v :: u8_t) :: u16_t) = take_bit 8 v"
    by (rule bit_word_eqI) (auto simp add: bit_simps)
  have "push_bit 8 (drop_bit 8 v) + take_bit 8 v = v"
    by (rule bits_ident)
  then show ?thesis
    by (simp add: hi lo push_bit_eq_mult)
qed

lemma length_be16 [simp]: "length (be16 v) = 2"
  by (simp add: be16_def)

lemma rd16_be16: "length pre = q \<Longrightarrow> rd16 (pre @ be16 v @ post) q = Inr v"
  by (auto simp add: rd16_def be16_def nth_append be16_value)

lemma length_dotted: "ls \<noteq> [] \<Longrightarrow> Suc (length (dotted ls)) = length (wire ls)"
  by (induction ls rule: dotted.induct) (simp_all add: wire_def wire_label_def)

lemma skip_name_complete:
  assumes "wf_name nm"
  shows "\<exists>pre'. length pre' = length pre + length (name_wire nm)
            \<and> skip_name (pre @ name_wire nm @ post) (length pre) = Inr (pre' @ post, length pre')"
proof (cases nm)
  case (Labels ls)
  with assms have wf: "wf_labels ls" and ne: "ls \<noteq> []" by simp_all
  then obtain l ls' where ls: "ls = l # ls'" by (cases ls) auto
  with wf have "wf_label l" by (simp add: wf_labels_def)
  then have first: "(pre @ wire ls @ 0 # post) ! length pre AND 0xC0 = 0"
    using ls by (simp add: wire_Cons wire_label_def wf_label_def len_byte_top nth_append)
  have "skip_name (pre @ wire ls @ 0 # post) (length pre) =
        parse_name (pre @ wire ls @ 0 # post) (length pre)"
    using first by (simp add: skip_name_def)
  also have "\<dots> = Inr (pre @ 0x2E # dotted ls @ 0 # post,
                        length pre + length (wire ls) + (if (0 :: u8_t) = 0 then 1 else 2))"
    using wf ne by (intro parse_name_labels) simp_all
  finally have "skip_name (pre @ name_wire nm @ post) (length pre) =
      Inr ((pre @ 0x2E # dotted ls @ [0]) @ post, length (pre @ 0x2E # dotted ls @ [0]))"
    using length_dotted [OF ne] by (simp add: Labels)
  moreover have "length (pre @ 0x2E # dotted ls @ [0]) = length pre + length (name_wire nm)"
    using length_dotted [OF ne] by (simp add: Labels)
  ultimately show ?thesis by blast
next
  case (Compressed ls p x)
  with assms have wf: "wf_labels ls" and pt: "p AND 0xC0 \<noteq> 0" by simp_all
  show ?thesis
  proof (cases ls)
    case Nil
    have "skip_name (pre @ name_wire nm @ post) (length pre) =
        Inr ((pre @ [p, x]) @ post, length (pre @ [p, x]))"
      using pt by (simp add: Compressed Nil skip_name_def wire_def)
    moreover have "length (pre @ [p, x]) = length pre + length (name_wire nm)"
      by (simp add: Compressed Nil wire_def)
    ultimately show ?thesis by blast
  next
    case (Cons l ls')
    with wf have "wf_label l" by (simp add: wf_labels_def)
    then have first: "(pre @ wire ls @ p # x # post) ! length pre AND 0xC0 = 0"
      using Cons by (simp add: wire_Cons wire_label_def wf_label_def len_byte_top nth_append)
    have ne: "ls \<noteq> []" using Cons by simp
    have pnz: "p \<noteq> 0" using pt by auto
    have "skip_name (pre @ wire ls @ p # x # post) (length pre) =
          parse_name (pre @ wire ls @ p # x # post) (length pre)"
      using first by (simp add: skip_name_def)
    also have "\<dots> = Inr (pre @ 0x2E # dotted ls @ 0 # x # post,
                          length pre + length (wire ls) + (if p = 0 then 1 else 2))"
      using wf ne pt by (intro parse_name_labels) simp_all
    finally have "skip_name (pre @ name_wire nm @ post) (length pre) =
        Inr ((pre @ 0x2E # dotted ls @ [0, x]) @ post, length (pre @ 0x2E # dotted ls @ [0, x]))"
      using length_dotted [OF ne] pnz by (simp add: Compressed)
    moreover have "length (pre @ 0x2E # dotted ls @ [0, x]) = length pre + length (name_wire nm)"
      using length_dotted [OF ne] by (simp add: Compressed)
    ultimately show ?thesis by blast
  qed
qed

lemma skip_questions_complete:
  "list_all (\<lambda>q. wf_name (q_name q)) qs \<Longrightarrow>
   \<exists>pre'. length pre' = length pre + length (concat (map question_wire qs))
      \<and> skip_questions (pre @ concat (map question_wire qs) @ post) (length pre) (length qs)
          = Inr (pre' @ post, length pre')"
proof (induction qs arbitrary: pre)
  case Nil
  show ?case by simp
next
  case (Cons q qs)
  from Cons.prems have wq: "wf_name (q_name q)" and wqs: "list_all (\<lambda>q. wf_name (q_name q)) qs"
    by simp_all
  let ?rest = "be16 (q_type q) @ be16 (q_class q) @ concat (map question_wire qs) @ post"
  obtain p1 where p1: "length p1 = length pre + length (name_wire (q_name q))"
      "skip_name (pre @ name_wire (q_name q) @ ?rest) (length pre) = Inr (p1 @ ?rest, length p1)"
    using skip_name_complete [OF wq, of pre ?rest] by blast
  let ?p2 = "p1 @ be16 (q_type q) @ be16 (q_class q)"
  obtain p3 where p3: "length p3 = length ?p2 + length (concat (map question_wire qs))"
      "skip_questions (?p2 @ concat (map question_wire qs) @ post) (length ?p2) (length qs)
         = Inr (p3 @ post, length p3)"
    using Cons.IH [OF wqs, of ?p2] by blast
  have "skip_questions (pre @ concat (map question_wire (q # qs)) @ post) (length pre)
          (length (q # qs)) = Inr (p3 @ post, length p3)"
    using p1(2) p3(2) by (simp add: question_wire_def)
  moreover have "length p3 = length pre + length (concat (map question_wire (q # qs)))"
    using p1(1) p3(1) by (simp add: question_wire_def)
  ultimately show ?case by blast
qed


lemma rd16_fixed:
  "rd16 (p @ be16 a @ be16 b @ be16 c @ be16 d @ be16 e @ rest) (length p) = Inr a"
  "rd16 (p @ be16 a @ be16 b @ be16 c @ be16 d @ be16 e @ rest) (length p + 2) = Inr b"
  "rd16 (p @ be16 a @ be16 b @ be16 c @ be16 d @ be16 e @ rest) (length p + 8) = Inr e"
  using rd16_be16 [of p "length p" a "be16 b @ be16 c @ be16 d @ be16 e @ rest"]
    rd16_be16 [of "p @ be16 a" "length p + 2" b "be16 c @ be16 d @ be16 e @ rest"]
    rd16_be16 [of "p @ be16 a @ be16 b @ be16 c @ be16 d" "length p + 8" e rest]
  by simp_all

lemma ans_usable_fixed:
  "ans_usable cfg (p @ be16 a @ be16 b @ be16 c @ be16 d @ be16 e @ rest) (length p) =
     Inr (a = addr_type cfg \<and> class_usable cfg b \<and> e = of_nat (addr_size cfg))"
  unfolding ans_usable_def by (simp only: rd16_fixed sum.case) auto

lemma unat_of_nat_u16: "n < 65536 \<Longrightarrow> unat (of_nat n :: u16_t) = n"
  by (simp add: unat_of_nat)

lemma addr_size_small: "addr_size cfg < 65536"
  by (simp add: addr_size_def)

lemma rd_bytes_at:
  "length p = q \<Longrightarrow> length bs = n \<Longrightarrow> rd_bytes (p @ bs @ rest) q n = Inr bs"
  by (auto simp add: rd_bytes_def)

text \<open>
  The loop over the answers of a complete datagram returns the resource data of the
  first record that passes the test of the build, and nothing if there is none.
\<close>

lemma walk_answers_exact:
  "list_all wf_answer as \<Longrightarrow>
   walk_answers cfg (pre @ concat (map answer_wire as) @ post) (length pre) (length as)
     = Inr (map_option a_rdata (find (usable cfg) as))"
proof (induction as arbitrary: pre)
  case Nil
  show ?case by simp
next
  case (Cons a as)
  from Cons.prems have wa: "wf_answer a" and was: "list_all wf_answer as"
    by simp_all
  from wa have wn: "wf_name (a_name a)" and len: "length (a_rdata a) < 65536"
    by (simp_all add: wf_answer_def)
  let ?more = "concat (map answer_wire as) @ post"
  let ?ln = "of_nat (length (a_rdata a)) :: u16_t"
  let ?rest = "be16 (a_type a) @ be16 (a_class a) @ be16 (a_ttl_hi a) @ be16 (a_ttl_lo a)
                 @ be16 ?ln @ a_rdata a @ ?more"
  let ?fixed = "be16 (a_type a) @ be16 (a_class a) @ be16 (a_ttl_hi a) @ be16 (a_ttl_lo a)
                 @ be16 ?ln"
  obtain p1 where p1: "skip_name (pre @ name_wire (a_name a) @ ?rest) (length pre)
                         = Inr (p1 @ ?rest, length p1)"
    using skip_name_complete [OF wn, of pre ?rest] by blast
  have buf: "pre @ concat (map answer_wire (a # as)) @ post = pre @ name_wire (a_name a) @ ?rest"
    by (simp add: answer_wire_def)
  have us: "ans_usable cfg (p1 @ ?rest) (length p1) =
      Inr (a_type a = addr_type cfg \<and> class_usable cfg (a_class a) \<and> ?ln = of_nat (addr_size cfg))"
    by (rule ans_usable_fixed)
  have ulen: "unat ?ln = length (a_rdata a)"
    using len by (rule unat_of_nat_u16)
  have sz: "?ln = of_nat (addr_size cfg) \<longleftrightarrow> length (a_rdata a) = addr_size cfg"
  proof
    assume "?ln = of_nat (addr_size cfg)"
    then have "unat ?ln = unat (of_nat (addr_size cfg) :: u16_t)" by (rule arg_cong)
    then show "length (a_rdata a) = addr_size cfg"
      by (simp only: ulen unat_of_nat_u16 [OF addr_size_small])
  next
    assume "length (a_rdata a) = addr_size cfg"
    then show "?ln = of_nat (addr_size cfg)" by (rule arg_cong)
  qed
  have step: "walk_answers cfg (pre @ name_wire (a_name a) @ ?rest) (length pre) (Suc (length as)) =
      (case ans_usable cfg (p1 @ ?rest) (length p1) of
         Inl e \<Rightarrow> Inl e
       | Inr True \<Rightarrow>
           (case rd_bytes (p1 @ ?rest) (length p1 + 10) (addr_size cfg) of
              Inl e \<Rightarrow> Inl e
            | Inr a \<Rightarrow> Inr (Some a))
       | Inr False \<Rightarrow>
           (case rd16 (p1 @ ?rest) (length p1 + 8) of
              Inl e \<Rightarrow> Inl e
            | Inr ln \<Rightarrow> walk_answers cfg (p1 @ ?rest) (length p1 + 10 + unat ln) (length as)))"
    by (simp only: walk_answers.simps p1 sum.case prod.case)
  show ?case
  proof (cases "usable cfg a")
    case True
    then have sz': "length (a_rdata a) = addr_size cfg" by (simp add: usable_def)
    have "rd_bytes ((p1 @ ?fixed) @ a_rdata a @ ?more) (length p1 + 10) (addr_size cfg)
            = Inr (a_rdata a)"
      using sz' by (intro rd_bytes_at) simp_all
    then have bs: "rd_bytes (p1 @ ?rest) (length p1 + 10) (addr_size cfg) = Inr (a_rdata a)"
      by simp
    from us True sz have us': "ans_usable cfg (p1 @ ?rest) (length p1) = Inr True"
      by (simp add: usable_def)
    have res: "map_option a_rdata (find (usable cfg) (a # as)) = Some (a_rdata a)"
      using True by simp
    have "walk_answers cfg (pre @ name_wire (a_name a) @ ?rest) (length pre) (Suc (length as))
            = Inr (Some (a_rdata a))"
      by (simp only: step us' bs sum.case bool.case)
    then show ?thesis
      by (simp only: buf length_Cons res)
  next
    case False
    let ?p2 = "p1 @ ?fixed @ a_rdata a"
    have l8: "rd16 (p1 @ ?rest) (length p1 + 8) = Inr ?ln"
      by (rule rd16_fixed)
    have next_q: "length p1 + 10 + unat ?ln = length ?p2"
      using ulen by simp
    have "walk_answers cfg (?p2 @ ?more) (length ?p2) (length as)
            = Inr (map_option a_rdata (find (usable cfg) as))"
      using Cons.IH [OF was, of ?p2] .
    then have r': "walk_answers cfg (p1 @ ?rest) (length p1 + 10 + unat ?ln) (length as)
            = Inr (map_option a_rdata (find (usable cfg) as))"
      unfolding next_q by simp
    from us False sz have us': "ans_usable cfg (p1 @ ?rest) (length p1) = Inr False"
      by (simp add: usable_def)
    have res: "map_option a_rdata (find (usable cfg) (a # as))
                 = map_option a_rdata (find (usable cfg) as)"
      using False by simp
    have "walk_answers cfg (pre @ name_wire (a_name a) @ ?rest) (length pre) (Suc (length as))
            = Inr (map_option a_rdata (find (usable cfg) as))"
      by (simp only: step us' l8 r' sum.case bool.case)
    then show ?thesis
      by (simp only: buf length_Cons res)
  qed
qed

lemma hdr_reads:
  "rd16 (dns_hdr_wire ident f1 f2 nq na ns nr @ rest) 0 = Inr ident"
  "rd (dns_hdr_wire ident f1 f2 nq na ns nr @ rest) 2 = Inr f1"
  "rd (dns_hdr_wire ident f1 f2 nq na ns nr @ rest) 3 = Inr f2"
  "rd16 (dns_hdr_wire ident f1 f2 nq na ns nr @ rest) 4 = Inr nq"
  "rd16 (dns_hdr_wire ident f1 f2 nq na ns nr @ rest) 6 = Inr na"
  using rd16_be16 [of "[]" 0 ident "[f1, f2] @ be16 nq @ be16 na @ be16 ns @ be16 nr @ rest"]
    rd16_be16 [of "be16 ident @ [f1, f2]" 4 nq "be16 na @ be16 ns @ be16 nr @ rest"]
    rd16_be16 [of "be16 ident @ [f1, f2] @ be16 nq" 6 na "be16 ns @ be16 nr @ rest"]
  by (simp_all add: dns_hdr_wire_def rd_def nth_append)

lemma length_dns_hdr_wire [simp]: "length (dns_hdr_wire ident f1 f2 nq na ns nr) = 12"
  by (simp add: dns_hdr_wire_def)

text \<open>
  C1, as the claim states it, fails: nothing in \<^verbatim>\<open>parse_name\<close> or \<^verbatim>\<open>newdata\<close> compares
  the cursor with the length of the datagram. On \<open>truncated_response\<close>, 40 bytes long,
  the length field of the answer is read at offset 40; on \<open>overcounted_response\<close>, 46
  bytes long, the name of a second answer at offset 46; and \<^verbatim>\<open>parse_name\<close> on a label
  that announces three bytes in a datagram of two reads at offset 4. Nor is a datagram
  that holds all it announces always parsed inside its bounds. \<open>root_response\<close>, 29
  bytes long, has a question for the root name: \<^verbatim>\<open>parse_name\<close> takes the byte behind
  that name for its terminator, the cursor is one byte too far from then on, and the
  second byte of the pointer of the answer is read as the length of a label that ends
  at offset 31. \<open>pointer_request\<close> is a header and the one question it announces,
  whose name is a compression pointer; the responder steps over the pointer, finds
  the class and the type it answers to, and compares the host name with \<^verbatim>\<open>name\<close>,
  which is still the null pointer.
\<close>

theorem newdata_reads_past_end:
  "length truncated_response = 40
   \<and> newdata default_config truncated_response asking_table = Inl (OutOfBounds 40)
   \<and> length overcounted_response = 46
   \<and> newdata default_config overcounted_response asking_table = Inl (OutOfBounds 46)
   \<and> parse_name [3, 0x77] 0 = Inl (OutOfBounds 4)
   \<and> root_response =
       dns_hdr_wire 0xF0B0 0x81 0x80 1 1 0 0 @ [0] @ be16 1 @ be16 1
         @ answer_wire \<lparr>a_name = Compressed [] 0xC0 0x0C, a_type = 1, a_class = 1,
                         a_ttl_hi = 0, a_ttl_lo = 60, a_rdata = []\<rparr>
   \<and> length root_response = 29
   \<and> newdata default_config root_response asking_table = Inl (OutOfBounds 31)
   \<and> pointer_request =
       dns_hdr_wire 0 0 0 1 0 0 0
         @ question_wire \<lparr>q_name = Compressed [] 0xC0 0x0C, q_type = 1, q_class = 1\<rparr>
   \<and> RESOLV_CONF_MDNS_RESPONDER default_config
   \<and> newdata default_config pointer_request (resolv_init 4) = Inl NullPointer"
proof -
  have "root_response =
       dns_hdr_wire 0xF0B0 0x81 0x80 1 1 0 0 @ [0] @ be16 1 @ be16 1
         @ answer_wire \<lparr>a_name = Compressed [] 0xC0 0x0C, a_type = 1, a_class = 1,
                         a_ttl_hi = 0, a_ttl_lo = 60, a_rdata = []\<rparr>"
    by (simp add: root_response_def dns_hdr_wire_def answer_wire_def be16_def wire_def)
  moreover have "newdata default_config root_response asking_table = Inl (OutOfBounds 31)"
    by (simp add: newdata_eval default_config_def root_response_def asking_table_def
        unused_entry_def)
  moreover
  have "newdata default_config truncated_response asking_table = Inl (OutOfBounds 40)"
    by (simp add: newdata_eval default_config_def truncated_response_def asking_table_def
        unused_entry_def)
  moreover have "newdata default_config overcounted_response asking_table = Inl (OutOfBounds 46)"
  proof -
    have two: "walk_answers cfg buf q 2 = walk_answers cfg buf q (Suc (Suc 0))" for cfg buf q
      by (simp only: numeral_2_eq_2)
    show ?thesis
      by (simp add: newdata_eval default_config_def overcounted_response_def asking_table_def
          unused_entry_def two)
  qed
  moreover have "parse_name [3, 0x77] 0 = Inl (OutOfBounds 4)"
    by (simp add: parse_name.simps)
  moreover have "pointer_request =
       dns_hdr_wire 0 0 0 1 0 0 0
         @ question_wire \<lparr>q_name = Compressed [] 0xC0 0x0C, q_type = 1, q_class = 1\<rparr>"
    by (simp add: pointer_request_def dns_hdr_wire_def question_wire_def be16_def wire_def)
  moreover have "newdata default_config pointer_request (resolv_init 4) = Inl NullPointer"
    by (simp add: newdata_def rd16_def rd_def pointer_request_def default_config_def resolv_init_4
        hostname_bytes_def skip_name_def own_question_def DNS_CLASS_IN_def
        DNS_TYPE_ANY_def addr_type_def DNS_TYPE_A_def Let_def)
  moreover have "length truncated_response = 40" and "length overcounted_response = 46"
    and "length root_response = 29" and "RESOLV_CONF_MDNS_RESPONDER default_config"
    by (simp_all add: truncated_response_def overcounted_response_def root_response_def
        default_config_def)
  ultimately show ?thesis
    by (intro conjI)
qed

subsection \<open>The responder and the end of the datagram\<close>

text \<open>
  The responder at work: the request \<open>own_request\<close> asks for the address of
  \<open>contiki.local\<close>; the reply carries the id of the request, the flags for a response
  and an authoritative answer, no question, and one answer with the name, type A,
  class IN with the top bit set, a time to live of 120 and the address of the host.
\<close>

lemma responder_example:
  "newdata default_config own_request (resolv_init 4) =
     Inr (resolv_init 4,
          [Reply [0, 0, 0x84, 0, 0, 0, 0, 1, 0, 0, 0, 0,
                  7, 0x63, 0x6F, 0x6E, 0x74, 0x69, 0x6B, 0x69, 5, 0x6C, 0x6F, 0x63, 0x61, 0x6C, 0,
                  0, 1, 0x80, 1, 0, 0, 0, 120, 0, 4, 192, 168, 1, 2]])"
  by (simp add: newdata_def rd16_def rd_def own_request_def default_config_def resolv_init_4
      hostname_bytes_def skip_name_def parse_name.simps own_question_def DNS_CLASS_IN_def
      DNS_TYPE_ANY_def addr_type_def DNS_TYPE_A_def tolower_def dot_local_def c_string_def
      reply_def mdns_addrs_def dns_answer_def be16_def addr_size_def encode_name.simps
      DNS_FLAG1_RESPONSE_def DNS_FLAG1_AUTHORATIVE_def Let_def)

text \<open>
  The comparisons of the responder stay in front of the zero byte that ends the text
  they read, and its loop, on questions that are all in the datagram, reads nothing
  outside the datagram as long as \<^verbatim>\<open>name\<close> is not the null pointer.
\<close>

lemma tolower_zero: "tolower c = 0 \<longleftrightarrow> c = 0"
proof (cases "0x41 \<le> c \<and> c \<le> 0x5A")
  case True
  then have lo: "65 \<le> unat c" and hi: "unat c \<le> 90"
    by (simp_all add: word_le_nat_alt)
  then have "unat (c + 0x20) = unat c + 32"
    by (simp add: unat_word_ariths)
  with lo have "unat (c + 0x20) \<noteq> 0" and "unat c \<noteq> 0"
    by simp_all
  then have "c + 0x20 \<noteq> 0" and "c \<noteq> 0"
    by auto
  with True show ?thesis
    by (simp add: tolower_def)
next
  case False
  then show ?thesis
    by (auto simp add: tolower_def)
qed

lemma in_drop_Suc:
  assumes "0 \<in> set (drop p buf)" and "buf ! p \<noteq> (0 :: u8_t)"
  shows "0 \<in> set (drop (Suc p) buf)"
proof -
  from assms(1) have "p < length buf"
    by (cases "p < length buf") simp_all
  then have "drop p buf = buf ! p # drop (Suc p) buf"
    by (rule Cons_nth_drop_Suc [symmetric])
  with assms show ?thesis by simp
qed

lemma strncasecmp_terminated:
  "0 \<notin> set host \<Longrightarrow> 0 \<in> set (drop p buf) \<Longrightarrow>
   \<exists>r. strncasecmp host buf p = Inr r \<and> (r \<longrightarrow> 0 \<in> set (drop (p + length host) buf))"
proof (induction host arbitrary: p)
  case Nil
  then show ?case by auto
next
  case (Cons c cs)
  from Cons.prems(2) have p: "p < length buf"
    by (cases "p < length buf") simp_all
  show ?case
  proof (cases "tolower c = tolower (buf ! p)")
    case True
    from Cons.prems(1) have "c \<noteq> 0" by auto
    then have "buf ! p \<noteq> 0"
      using True tolower_zero [of c] tolower_zero [of "buf ! p"] by auto
    with Cons.prems(2) have "0 \<in> set (drop (Suc p) buf)"
      by (rule in_drop_Suc)
    with Cons.IH [of "Suc p"] Cons.prems(1) True p show ?thesis
      by (simp add: rd_def)
  next
    case False
    with p show ?thesis by (auto simp add: rd_def)
  qed
qed

lemma strcasecmp_terminated:
  "0 \<notin> set lit \<Longrightarrow> 0 \<in> set (drop p buf) \<Longrightarrow> \<exists>r. strcasecmp buf p lit = Inr r"
proof (induction lit arbitrary: p)
  case Nil
  then have "p < length buf"
    by (cases "p < length buf") simp_all
  then show ?case by (simp add: rd_def)
next
  case (Cons c cs)
  from Cons.prems(2) have p: "p < length buf"
    by (cases "p < length buf") simp_all
  show ?case
  proof (cases "tolower (buf ! p) = tolower c")
    case True
    from Cons.prems(1) have "c \<noteq> 0" by auto
    then have "buf ! p \<noteq> 0"
      using True tolower_zero [of c] tolower_zero [of "buf ! p"] by auto
    with Cons.prems(2) have "0 \<in> set (drop (Suc p) buf)"
      by (rule in_drop_Suc)
    with Cons.IH [of "Suc p"] Cons.prems(1) True p show ?thesis
      by (simp add: rd_def)
  next
    case False
    with p show ?thesis by (auto simp add: rd_def)
  qed
qed

lemma dot_local_nonzero: "0 \<notin> set dot_local"
  by (simp add: dot_local_def)

lemma hostname_bytes_nonzero: "0 \<notin> set (hostname_bytes s)"
  unfolding hostname_bytes_def by (auto dest: set_takeWhileD)

lemma skip_name_text:
  assumes "wf_name nm"
  shows "\<exists>mid. length mid = length (name_wire nm)
          \<and> skip_name (pre @ name_wire nm @ post) (length pre)
              = Inr (pre @ mid @ post, length pre + length mid)
          \<and> (if pointer_only nm then (pre @ name_wire nm @ post) ! length pre AND 0xC0 \<noteq> 0
              else (pre @ name_wire nm @ post) ! length pre AND 0xC0 = 0
                   \<and> mid \<noteq> [] \<and> 0 \<in> set (tl mid))"
proof (cases nm)
  case (Labels ls)
  with assms have wf: "wf_labels ls" and ne: "ls \<noteq> []" by simp_all
  then obtain l ls' where ls: "ls = l # ls'" by (cases ls) auto
  with wf have "wf_label l" by (simp add: wf_labels_def)
  then have first: "(pre @ wire ls @ 0 # post) ! length pre AND 0xC0 = 0"
    using ls by (simp add: wire_Cons wire_label_def wf_label_def len_byte_top nth_append)
  have "skip_name (pre @ wire ls @ 0 # post) (length pre) =
        parse_name (pre @ wire ls @ 0 # post) (length pre)"
    using first by (simp add: skip_name_def)
  also have "\<dots> = Inr (pre @ 0x2E # dotted ls @ 0 # post,
                        length pre + length (wire ls) + (if (0 :: u8_t) = 0 then 1 else 2))"
    using wf ne by (intro parse_name_labels) simp_all
  finally have "skip_name (pre @ name_wire nm @ post) (length pre) =
      Inr (pre @ (0x2E # dotted ls @ [0]) @ post, length pre + length (0x2E # dotted ls @ [0]))"
    using length_dotted [OF ne] by (simp add: Labels)
  moreover have "length (0x2E # dotted ls @ [0]) = length (name_wire nm)"
    using length_dotted [OF ne] by (simp add: Labels)
  moreover have "(pre @ name_wire nm @ post) ! length pre AND 0xC0 = 0"
    using first by (simp add: Labels)
  ultimately show ?thesis
    using Labels by (intro exI [of _ "0x2E # dotted ls @ [0]"]) simp
next
  case (Compressed ls p x)
  with assms have wf: "wf_labels ls" and pt: "p AND 0xC0 \<noteq> 0" by simp_all
  show ?thesis
  proof (cases ls)
    case Nil
    have "skip_name (pre @ name_wire nm @ post) (length pre) =
        Inr (pre @ [p, x] @ post, length pre + length [p, x])"
      using pt by (simp add: Compressed Nil skip_name_def wire_def)
    moreover have "length [p, x] = length (name_wire nm)"
      by (simp add: Compressed Nil wire_def)
    moreover have "(pre @ name_wire nm @ post) ! length pre AND 0xC0 \<noteq> 0"
      using pt by (simp add: Compressed Nil wire_def)
    ultimately show ?thesis
      using Compressed Nil by (intro exI [of _ "[p, x]"]) simp
  next
    case (Cons l ls')
    with wf have "wf_label l" by (simp add: wf_labels_def)
    then have first: "(pre @ wire ls @ p # x # post) ! length pre AND 0xC0 = 0"
      using Cons by (simp add: wire_Cons wire_label_def wf_label_def len_byte_top nth_append)
    have ne: "ls \<noteq> []" using Cons by simp
    have pnz: "p \<noteq> 0" using pt by auto
    have "skip_name (pre @ wire ls @ p # x # post) (length pre) =
          parse_name (pre @ wire ls @ p # x # post) (length pre)"
      using first by (simp add: skip_name_def)
    also have "\<dots> = Inr (pre @ 0x2E # dotted ls @ 0 # x # post,
                          length pre + length (wire ls) + (if p = 0 then 1 else 2))"
      using wf ne pt by (intro parse_name_labels) simp_all
    finally have "skip_name (pre @ name_wire nm @ post) (length pre) =
        Inr (pre @ (0x2E # dotted ls @ [0, x]) @ post,
             length pre + length (0x2E # dotted ls @ [0, x]))"
      using length_dotted [OF ne] pnz by (simp add: Compressed)
    moreover have "length (0x2E # dotted ls @ [0, x]) = length (name_wire nm)"
      using length_dotted [OF ne] by (simp add: Compressed)
    moreover have "(pre @ name_wire nm @ post) ! length pre AND 0xC0 = 0"
      using first by (simp add: Compressed)
    ultimately show ?thesis
      using Compressed ne by (intro exI [of _ "0x2E # dotted ls @ [0, x]"]) simp
  qed
qed

lemma in_drop_append: "p \<le> length xs \<Longrightarrow> z \<in> set (drop p xs) \<Longrightarrow> z \<in> set (drop p (xs @ ys))"
  by simp

lemma own_question_complete:
  "own_question cfg (p @ be16 ty @ be16 cl @ rest) (length p) =
     Inr (cl AND 0x7FFF = DNS_CLASS_IN \<and> (ty = DNS_TYPE_ANY \<or> ty = addr_type cfg))"
proof -
  have 1: "rd16 (p @ be16 ty @ be16 cl @ rest) (length p) = Inr ty"
    by (rule rd16_be16) simp
  have "rd16 ((p @ be16 ty) @ be16 cl @ rest) (length p + 2) = Inr cl"
    by (rule rd16_be16) simp
  then have 2: "rd16 (p @ be16 ty @ be16 cl @ rest) (length p + 2) = Inr cl"
    by simp
  show ?thesis
    unfolding own_question_def by (simp only: 1 2 sum.case) auto
qed

lemma respond_complete:
  assumes host: "0 \<notin> set host"
  shows "list_all (\<lambda>q. wf_name (q_name q)) qs \<Longrightarrow>
     (case namep of None \<Rightarrow> named_in_time cfg qs
      | Some p \<Rightarrow> p \<le> length pre \<and> 0 \<in> set (drop p pre)) \<Longrightarrow>
     \<exists>evs. respond cfg host (pre @ concat (map question_wire qs) @ post) (length pre) namep
              (length qs) = Inr evs"
proof (induction qs arbitrary: pre namep)
  case Nil
  show ?case by simp
next
  case (Cons q qs)
  from Cons.prems(1) have wq: "wf_name (q_name q)" and wqs: "list_all (\<lambda>q. wf_name (q_name q)) qs"
    by simp_all
  let ?rest = "concat (map question_wire qs) @ post"
  let ?tail = "be16 (q_type q) @ be16 (q_class q) @ ?rest"
  let ?buf = "pre @ name_wire (q_name q) @ ?tail"
  have buf: "pre @ concat (map question_wire (q # qs)) @ post = ?buf"
    by (simp add: question_wire_def)
  obtain mid where len: "length mid = length (name_wire (q_name q))"
    and skip: "skip_name ?buf (length pre) = Inr (pre @ mid @ ?tail, length pre + length mid)"
    and shape: "if pointer_only (q_name q) then ?buf ! length pre AND 0xC0 \<noteq> 0
                else ?buf ! length pre AND 0xC0 = 0 \<and> mid \<noteq> [] \<and> 0 \<in> set (tl mid)"
    using skip_name_text [OF wq, of pre ?tail] by blast
  let ?pre' = "pre @ mid @ be16 (q_type q) @ be16 (q_class q)"
  let ?buf' = "pre @ mid @ ?tail"
  have buf': "?buf' = ?pre' @ ?rest" by simp
  have q4: "length pre + length mid + 4 = length ?pre'" by simp
  have own: "own_question cfg ?buf' (length pre + length mid) = Inr (answerable cfg q)"
    using own_question_complete [of cfg "pre @ mid" "q_type q" "q_class q" ?rest]
    by (simp add: answerable_def)
  show ?case
  proof (cases "pointer_only (q_name q) \<and> namep = None")
    case True
    with shape have pt: "(?buf ! length pre AND 0xC0 \<noteq> 0) = True" by simp
    from True Cons.prems(2) have na: "answerable cfg q = False" and later: "named_in_time cfg qs"
      by simp_all
    obtain evs' where nx: "respond cfg host ?buf' (length pre + length mid + 4) None (length qs)
                            = Inr evs'"
      using Cons.IH [OF wqs, of ?pre' None] later unfolding buf' q4 by auto
    have "respond cfg host ?buf (length pre) namep (Suc (length qs)) = Inr evs'"
      using True
      by (simp only: respond.simps skip sum.case prod.case Let_def pt if_True own na bool.case nx)
    then show ?thesis
      unfolding buf length_Cons by simp
  next
    case known: False
    obtain p where p: "(if ?buf ! length pre AND 0xC0 \<noteq> 0 then namep else Some (length pre + 1)) = Some p"
      and ple: "p \<le> length ?pre'" and pz: "0 \<in> set (drop p ?pre')"
    proof (cases "pointer_only (q_name q)")
      case True
      with shape have pt: "?buf ! length pre AND 0xC0 \<noteq> 0" by simp
      from True known Cons.prems(2) obtain p0 where p0: "namep = Some p0" "p0 \<le> length pre"
          "0 \<in> set (drop p0 pre)"
        by (cases namep) simp_all
      show ?thesis
      proof (rule that [of p0])
        show "(if ?buf ! length pre AND 0xC0 \<noteq> 0 then namep else Some (length pre + 1)) = Some p0"
          using pt p0(1) by simp
        show "p0 \<le> length ?pre'" using p0(2) by simp
        show "0 \<in> set (drop p0 ?pre')" using p0(2,3) by (rule in_drop_append)
      qed
    next
      case False
      with shape have pt: "?buf ! length pre AND 0xC0 = 0" and ne: "mid \<noteq> []"
        and z: "0 \<in> set (tl mid)"
        by simp_all
      show ?thesis
      proof (rule that [of "length pre + 1"])
        show "(if ?buf ! length pre AND 0xC0 \<noteq> 0 then namep else Some (length pre + 1))
                = Some (length pre + 1)"
          using pt by simp
        show "length pre + 1 \<le> length ?pre'" using ne by (cases mid) simp_all
        show "0 \<in> set (drop (length pre + 1) ?pre')" using ne z by (cases mid) simp_all
      qed
    qed
    have pz': "0 \<in> set (drop p ?buf')"
      unfolding buf' using ple pz by (rule in_drop_append)
    obtain evs' where nx: "respond cfg host ?buf' (length pre + length mid + 4) (Some p) (length qs)
                            = Inr evs'"
      using Cons.IH [OF wqs, of ?pre' "Some p"] ple pz unfolding buf' q4 by auto
    obtain r2 where sn: "strncasecmp host ?buf' p = Inr r2"
      and sn': "r2 \<Longrightarrow> 0 \<in> set (drop (p + length host) ?buf')"
      using strncasecmp_terminated [OF host pz'] by blast
    have cs: "c_string ?buf' p = Inr (takeWhile (\<lambda>b. b \<noteq> 0) (drop p ?buf'))"
      using pz' by (simp only: c_string_def if_True)
    have step: "respond cfg host ?buf (length pre) namep (Suc (length qs)) =
        (if answerable cfg q then
           if r2 then
             (case strcasecmp ?buf' (p + length host) dot_local of
                Inl e \<Rightarrow> Inl e
              | Inr False \<Rightarrow> Inr evs'
              | Inr True \<Rightarrow>
                  Inr [Reply (reply cfg ?buf' (takeWhile (\<lambda>b. b \<noteq> 0) (drop p ?buf')))])
           else Inr evs'
         else Inr evs')"
      by (simp only: respond.simps skip sum.case prod.case Let_def p own option.case sn nx cs
            bool.case split: if_splits)
         (simp split: bool.splits)
    show ?thesis
    proof (cases "answerable cfg q \<and> r2")
      case True
      then obtain r3 where "strcasecmp ?buf' (p + length host) dot_local = Inr r3"
        using strcasecmp_terminated [OF dot_local_nonzero sn'] by blast
      with True step show ?thesis
        unfolding buf length_Cons by (cases r3) simp_all
    next
      case False
      with step show ?thesis
        unfolding buf length_Cons by auto
    qed
  qed
qed

text \<open>
  And when a question that the responder answers to does come first, \<^verbatim>\<open>name\<close> is the
  null pointer where the host name is compared with it.
\<close>

lemma respond_null_pointer:
  "list_all (\<lambda>q. wf_name (q_name q)) qs \<Longrightarrow> \<not> named_in_time cfg qs \<Longrightarrow>
   respond cfg host (pre @ concat (map question_wire qs) @ post) (length pre) None (length qs)
     = Inl NullPointer"
proof (induction qs arbitrary: pre)
  case Nil
  then show ?case by simp
next
  case (Cons q qs)
  from Cons.prems(1) have wq: "wf_name (q_name q)" and wqs: "list_all (\<lambda>q. wf_name (q_name q)) qs"
    by simp_all
  from Cons.prems(2) have po: "pointer_only (q_name q)"
    and more: "answerable cfg q \<or> \<not> named_in_time cfg qs"
    by (auto split: if_splits)
  let ?rest = "concat (map question_wire qs) @ post"
  let ?tail = "be16 (q_type q) @ be16 (q_class q) @ ?rest"
  let ?buf = "pre @ name_wire (q_name q) @ ?tail"
  have buf: "pre @ concat (map question_wire (q # qs)) @ post = ?buf"
    by (simp add: question_wire_def)
  obtain mid where len: "length mid = length (name_wire (q_name q))"
    and skip: "skip_name ?buf (length pre) = Inr (pre @ mid @ ?tail, length pre + length mid)"
    and shape: "if pointer_only (q_name q) then ?buf ! length pre AND 0xC0 \<noteq> 0
                else ?buf ! length pre AND 0xC0 = 0 \<and> mid \<noteq> [] \<and> 0 \<in> set (tl mid)"
    using skip_name_text [OF wq, of pre ?tail] by blast
  let ?pre' = "pre @ mid @ be16 (q_type q) @ be16 (q_class q)"
  let ?buf' = "pre @ mid @ ?tail"
  have buf': "?buf' = ?pre' @ ?rest" by simp
  have q4: "length pre + length mid + 4 = length ?pre'" by simp
  have own: "own_question cfg ?buf' (length pre + length mid) = Inr (answerable cfg q)"
    using own_question_complete [of cfg "pre @ mid" "q_type q" "q_class q" ?rest]
    by (simp add: answerable_def)
  from po shape have pt: "(?buf ! length pre AND 0xC0 \<noteq> 0) = True" by simp
  show ?case
  proof (cases "answerable cfg q")
    case True
    then have "respond cfg host ?buf (length pre) None (Suc (length qs)) = Inl NullPointer"
      by (simp only: respond.simps skip sum.case prod.case Let_def pt if_True own bool.case
            option.case)
    then show ?thesis
      unfolding buf length_Cons by simp
  next
    case False
    with more have "\<not> named_in_time cfg qs" by simp
    then have nx: "respond cfg host ?buf' (length pre + length mid + 4) None (length qs)
                     = Inl NullPointer"
      using Cons.IH [OF wqs, of ?pre'] unfolding buf' q4 by simp
    from False have "respond cfg host ?buf (length pre) None (Suc (length qs)) = Inl NullPointer"
      by (simp only: respond.simps skip sum.case prod.case Let_def pt if_True own bool.case nx)
    then show ?thesis
      unfolding buf length_Cons by simp
  qed
qed

text \<open>
  For a complete request in a build with the responder this is the whole exception: a
  request that announces questions and no answer, and in which a question that the
  responder answers to comes before any question whose name begins with a label, ends
  at the null pointer, whatever follows the questions.
\<close>

lemma newdata_null_pointer:
  assumes "list_all (\<lambda>q. wf_name (q_name q)) qs"
    and "length qs = unat (ucast numquestions :: u8_t)"
    and "(ucast numanswers :: u8_t) = 0"
    and "RESOLV_CONF_MDNS_RESPONDER cfg" and "\<not> named_in_time cfg qs"
  shows "newdata cfg
           (dns_hdr_wire ident 0 0 numquestions numanswers ns nr
              @ concat (map question_wire qs) @ post) s
         = Inl NullPointer"
proof -
  let ?hdr = "dns_hdr_wire ident 0 0 numquestions numanswers ns nr"
  let ?buf = "?hdr @ concat (map question_wire qs) @ post"
  from assms(5) have "qs \<noteq> []" by (cases qs) simp_all
  with assms(2) have nq: "((ucast numquestions :: u8_t) = 0) = False" by auto
  have "respond cfg (hostname_bytes s) (?hdr @ concat (map question_wire qs) @ post)
          (length ?hdr) None (length qs) = Inl NullPointer"
    using assms(1,5) by (rule respond_null_pointer)
  then have "respond cfg (hostname_bytes s) ?buf 12 None (unat (ucast numquestions :: u8_t))
          = Inl NullPointer"
    by (simp add: assms(2))
  with assms(3,4) nq show ?thesis
    unfolding newdata_def by (simp only: hdr_reads sum.case Let_def) simp
qed

text \<open>
  C1, amended. A datagram that is complete is parsed inside its bounds, unless the
  build has the mDNS responder and the datagram is a request without answer records
  in which a question that the responder answers to comes before any question whose
  name begins with a label. If a datagram consists of the header, as many questions
  and answer records as the low bytes of the two counts of the header say (the code
  keeps no more of a count), all with well-formed names, and anything after them, and
  if it is a response, or the build has no responder, or it carries an answer record,
  or none of its questions that the responder answers to comes before the first one
  whose name begins with a label, then \<^verbatim>\<open>newdata\<close> ends without an access outside the
  datagram. This holds for every table, every host name and every header.
\<close>

theorem newdata_in_bounds:
  assumes "list_all (\<lambda>q. wf_name (q_name q)) qs" and "list_all wf_answer as"
    and "length qs = unat (ucast numquestions :: u8_t)"
    and "length as = unat (ucast numanswers :: u8_t)"
    and "\<not> (flags1 = 0 \<and> flags2 = 0) \<or> \<not> RESOLV_CONF_MDNS_RESPONDER cfg \<or> as \<noteq> []
         \<or> named_in_time cfg qs"
  shows "\<exists>r. newdata cfg
               (dns_hdr_wire ident flags1 flags2 numquestions numanswers ns nr
                  @ concat (map question_wire qs) @ concat (map answer_wire as) @ extra) s
             = Inr r"
proof -
  let ?hdr = "dns_hdr_wire ident flags1 flags2 numquestions numanswers ns nr"
  let ?as = "concat (map answer_wire as) @ extra"
  let ?buf = "?hdr @ concat (map question_wire qs) @ ?as"
  show ?thesis
  proof (cases "flags1 = 0 \<and> flags2 = 0")
    case request: True
    show ?thesis
    proof (cases "RESOLV_CONF_MDNS_RESPONDER cfg \<and> (ucast numquestions :: u8_t) \<noteq> 0
                  \<and> (ucast numanswers :: u8_t) = 0")
      case True
      with assms(4) have "as = []" by simp
      with True request assms(5) have "named_in_time cfg qs" by simp
      then obtain evs where "respond cfg (hostname_bytes s) (?hdr @ concat (map question_wire qs) @ ?as)
          (length ?hdr) None (length qs) = Inr evs"
        using respond_complete [where host = "hostname_bytes s" and qs = qs and namep = None
            and pre = ?hdr and cfg = cfg and post = ?as] hostname_bytes_nonzero assms(1)
        by auto
      then have "respond cfg (hostname_bytes s) ?buf 12 None (unat (ucast numquestions :: u8_t))
          = Inr evs"
        by (simp add: assms(3))
      with request True show ?thesis
        unfolding newdata_def by (simp only: hdr_reads sum.case Let_def) simp
    next
      case False
      with request show ?thesis
        unfolding newdata_def by (simp only: hdr_reads sum.case Let_def) auto
    qed
  next
    case response: False
    obtain p1 where p1: "skip_questions (?hdr @ concat (map question_wire qs) @ ?as) (length ?hdr)
          (length qs) = Inr (p1 @ ?as, length p1)"
      using skip_questions_complete [OF assms(1), of ?hdr ?as] by blast
    obtain r where r: "walk_answers cfg (p1 @ ?as) (length p1) (length as) = Inr r"
      using walk_answers_exact [OF assms(2), of cfg p1 extra] by blast
    have sq: "skip_questions ?buf 12 (unat (ucast numquestions :: u8_t)) = Inr (p1 @ ?as, length p1)"
      using p1 by (simp add: assms(3))
    have wa: "walk_answers cfg (p1 @ ?as) (length p1) (unat (ucast numanswers :: u8_t)) = Inr r"
      using r by (simp add: assms(4))
    from response have fl: "(flags1 = 0 \<and> flags2 = 0) = False" by simp
    show ?thesis
      unfolding newdata_def
      by (simp only: hdr_reads sum.case Let_def sq wa prod.case fl if_False)
         (auto split: option.splits)
  qed
qed

theorem newdata_in_bounds_witness:
  "list_all (\<lambda>q. wf_name (q_name q))
     [\<lparr>q_name = Labels [[0x68, 0x6F, 0x73, 0x74], [0x65, 0x78, 0x61, 0x6D, 0x70, 0x6C, 0x65]],
       q_type = 1, q_class = 1\<rparr>]
   \<and> list_all wf_answer
       [\<lparr>a_name = Compressed [] 0xC0 0x0C, a_type = 1, a_class = 1, a_ttl_hi = 0, a_ttl_lo = 60,
         a_rdata = [10, 1, 2, 3]\<rparr>]
   \<and> (\<exists>r. newdata default_config a_response asking_table = Inr r)
   \<and> list_all (\<lambda>q. wf_name (q_name q))
       [\<lparr>q_name = Labels [[0x63, 0x6F, 0x6E, 0x74, 0x69, 0x6B, 0x69], [0x6C, 0x6F, 0x63, 0x61, 0x6C]],
         q_type = 1, q_class = 1\<rparr>]
   \<and> RESOLV_CONF_MDNS_RESPONDER default_config
   \<and> (\<exists>r. newdata default_config own_request (resolv_init 4) = Inr r)"
proof -
  let ?qs = "[\<lparr>q_name = Labels [[0x68, 0x6F, 0x73, 0x74], [0x65, 0x78, 0x61, 0x6D, 0x70, 0x6C, 0x65]],
               q_type = 1, q_class = 1\<rparr>]"
  let ?as = "[\<lparr>a_name = Compressed [] 0xC0 0x0C, a_type = 1, a_class = 1, a_ttl_hi = 0,
               a_ttl_lo = 60, a_rdata = [10, 1, 2, 3]\<rparr>]"
  let ?own = "[\<lparr>q_name = Labels [[0x63, 0x6F, 0x6E, 0x74, 0x69, 0x6B, 0x69],
                                  [0x6C, 0x6F, 0x63, 0x61, 0x6C]],
                q_type = 1, q_class = 1\<rparr>]"
  have 1: "list_all (\<lambda>q. wf_name (q_name q)) ?qs"
    by (simp add: wf_labels_def wf_label_def)
  have 2: "list_all wf_answer ?as"
    by (simp add: wf_answer_def wf_labels_def)
  have 3: "length ?qs = unat (ucast (1 :: u16_t) :: u8_t)"
    and 4: "length ?as = unat (ucast (1 :: u16_t) :: u8_t)"
    by simp_all
  have 5: "\<not> ((0x81 :: u8_t) = 0 \<and> (0x80 :: u8_t) = 0) \<or> \<not> RESOLV_CONF_MDNS_RESPONDER default_config
           \<or> ?as \<noteq> [] \<or> named_in_time default_config ?qs"
    by simp
  have 6: "dns_hdr_wire 0xF0B0 0x81 0x80 1 1 0 0
             @ concat (map question_wire ?qs) @ concat (map answer_wire ?as) @ [] = a_response"
    by (simp add: dns_hdr_wire_def be16_def question_wire_def answer_wire_def wire_def
        wire_label_def a_response_def)
  have 7: "list_all (\<lambda>q. wf_name (q_name q)) ?own"
    by (simp add: wf_labels_def wf_label_def)
  have 8: "list_all wf_answer []"
    by simp
  have 9: "length ?own = unat (ucast (1 :: u16_t) :: u8_t)"
    and 10: "length ([] :: answer list) = unat (ucast (0 :: u16_t) :: u8_t)"
    by simp_all
  have 11: "\<not> ((0 :: u8_t) = 0 \<and> (0 :: u8_t) = 0) \<or> \<not> RESOLV_CONF_MDNS_RESPONDER default_config
           \<or> ([] :: answer list) \<noteq> [] \<or> named_in_time default_config ?own"
    by simp
  have 12: "dns_hdr_wire 0 0 0 1 0 0 0
             @ concat (map question_wire ?own) @ concat (map answer_wire []) @ [] = own_request"
    by (simp add: dns_hdr_wire_def be16_def question_wire_def wire_def
        wire_label_def own_request_def)
  have 13: "RESOLV_CONF_MDNS_RESPONDER default_config"
    by (simp add: default_config_def)
  show ?thesis
    using newdata_in_bounds [OF 1 2 3 4 5, of "0xF0B0" 0 0 "[]" asking_table]
      newdata_in_bounds [OF 7 8 9 10 11, of 0 0 0 "[]" "resolv_init 4"] 1 2 7 13
    unfolding 6 12 by simp
qed

subsection \<open>\<^verbatim>\<open>newdata\<close> on a complete response\<close>

text \<open>
  What \<^verbatim>\<open>newdata\<close> does with a complete response that belongs to an entry being asked
  for, announces at least one answer and carries no error code: the entry takes the
  address of the first usable answer, is done, and \<^verbatim>\<open>resolv_found\<close> is called once
  with that address; without a usable answer the entry is left in \<open>STATE_ERROR\<close> and
  \<^verbatim>\<open>resolv_found\<close> is not called. In an IPv6 build the usable answers are those of type
  AAAA, class IN and length 16; in an IPv4 build there are none.
\<close>

lemma newdata_complete_response:
  assumes "list_all (\<lambda>q. wf_name (q_name q)) qs" and "list_all wf_answer as"
    and "length qs = unat (ucast numquestions :: u8_t)"
    and "length as = unat (ucast numanswers :: u8_t)" and "as \<noteq> []"
    and "\<not> (flags1 = 0 \<and> flags2 = 0)" and "flags2 AND DNS_FLAG2_ERR_MASK = 0"
    and "unat (RESOLV_DECODE_INDEX ident) = i" and "i < length (names s)"
    and "state (names s ! i) = STATE_ASKING"
  shows "newdata cfg
           (dns_hdr_wire ident flags1 flags2 numquestions numanswers ns nr
              @ concat (map question_wire qs) @ concat (map answer_wire as) @ extra) s
         = Inr (case find (usable cfg) as of
                  None \<Rightarrow>
                    (s\<lparr>names := (names s)[i := (names s ! i)\<lparr>state := STATE_ERROR, err := 0\<rparr>]\<rparr>, [])
                | Some a \<Rightarrow>
                    (s\<lparr>names := (names s)
                         [i := (names s ! i)\<lparr>err := 0, state := STATE_DONE, ipaddr := a_rdata a\<rparr>]\<rparr>,
                     [Found i (Some (a_rdata a))]))"
proof -
  let ?hdr = "dns_hdr_wire ident flags1 flags2 numquestions numanswers ns nr"
  let ?as = "concat (map answer_wire as) @ extra"
  let ?buf = "?hdr @ concat (map question_wire qs) @ ?as"
  obtain p1 where p1: "skip_questions (?hdr @ concat (map question_wire qs) @ ?as) (length ?hdr)
        (length qs) = Inr (p1 @ ?as, length p1)"
    using skip_questions_complete [OF assms(1), of ?hdr ?as] by blast
  have r: "walk_answers cfg (p1 @ ?as) (length p1) (length as)
             = Inr (map_option a_rdata (find (usable cfg) as))"
    using assms(2) by (rule walk_answers_exact)
  have sq: "skip_questions ?buf 12 (unat (ucast numquestions :: u8_t)) = Inr (p1 @ ?as, length p1)"
    using p1 by (simp add: assms(3))
  have wa: "walk_answers cfg (p1 @ ?as) (length p1) (unat (ucast numanswers :: u8_t))
              = Inr (map_option a_rdata (find (usable cfg) as))"
    using r by (simp add: assms(4))
  have na: "(ucast numanswers :: u8_t) \<noteq> 0"
  proof
    assume "(ucast numanswers :: u8_t) = 0"
    then have "unat (ucast numanswers :: u8_t) = 0" by simp
    with assms(4,5) show False by simp
  qed
  from assms(6) have fl: "(flags1 = 0 \<and> flags2 = 0) = False" by simp
  from assms(9) have il: "(length (names s) \<le> i) = False" by simp
  show ?thesis
    unfolding newdata_def
    by (simp only: hdr_reads sum.case Let_def sq wa prod.case fl if_False assms(8) il assms(10)
          if_True na)
       (simp add: assms(7) split: option.splits)
qed


lemma usable_ipv6:
  "UIP_CONF_IPV6 cfg \<Longrightarrow>
   usable cfg a \<longleftrightarrow>
     a_type a = 28 \<and> a_class a AND 0x7FFF = 1 \<and> length (a_rdata a) = 16"
  by (simp add: usable_def addr_type_def DNS_TYPE_AAAA_def class_usable_def DNS_CLASS_IN_def
      addr_size_def)

lemma usable_ipv4: "\<not> UIP_CONF_IPV6 cfg \<Longrightarrow> \<not> usable cfg a"
  by (simp add: usable_def class_usable_def DNS_CLASS_IN_def)

subsection \<open>\<^verbatim>\<open>parse_name\<close> on a name without labels\<close>

text \<open>
  The condition of the \<^verbatim>\<open>do\<close> loop is tested after the body: on the root name, a zero
  byte alone, \<^verbatim>\<open>parse_name\<close> writes the dot over that byte and then tests the byte
  behind it. If that is zero as well, the function returns the offset behind it.
\<close>

lemma parse_name_root:
  "parse_name (pre @ 0 # 0 # post) (length pre) = Inr (pre @ 0x2E # 0 # post, length pre + 2)"
  by (subst parse_name.simps) (simp add: nth_append)

subsection \<open>\<^verbatim>\<open>resolv_query\<close> while the counter has not gone round\<close>

text \<open>
  When every slot is in use for another name and no sequence number in the table is
  larger than the counter, the differences that \<^verbatim>\<open>resolv_query\<close> compares are the ages,
  and the slot it picks holds an entry of the greatest age.
\<close>

lemma age_test:
  "(e :: u8_t) \<le> sq \<Longrightarrow> (uint sq - uint e > uint lseq) = (lseq < sq - e)"
  by (simp add: word_less_def uint_minus_simple_alt)

lemma query_scan_oldest:
  assumes "\<forall>e \<in> set es. \<not> hit nm e" and "\<forall>e \<in> set es. seqno e \<le> sq"
  shows "(snd (query_scan nm sq es i lseq lseqi) = lseqi \<and> (\<forall>e \<in> set es. sq - seqno e \<le> lseq))
       \<or> (i \<le> snd (query_scan nm sq es i lseq lseqi)
          \<and> snd (query_scan nm sq es i lseq lseqi) < i + length es
          \<and> lseq < sq - seqno (es ! (snd (query_scan nm sq es i lseq lseqi) - i))
          \<and> (\<forall>e \<in> set es. sq - seqno e
                 \<le> sq - seqno (es ! (snd (query_scan nm sq es i lseq lseqi) - i))))"
  using assms
proof (induction es arbitrary: i lseq lseqi)
  case Nil
  then show ?case by simp
next
  case (Cons e es)
  from Cons.prems have nh: "\<not> hit nm e" and nw: "seqno e \<le> sq"
    and nhs: "\<forall>e \<in> set es. \<not> hit nm e" and nws: "\<forall>e \<in> set es. seqno e \<le> sq"
    by simp_all
  from nh have nh': "\<not> (state e = STATE_UNUSED \<or> name e = nm)" by (simp add: hit_def)
  show ?case
  proof (cases "lseq < sq - seqno e")
    case True
    then have scan: "query_scan nm sq (e # es) i lseq lseqi
                     = query_scan nm sq es (Suc i) (sq - seqno e) i"
      using nh' age_test [OF nw, of lseq] by simp
    let ?l = "snd (query_scan nm sq es (Suc i) (sq - seqno e) i)"
    from Cons.IH [OF nhs nws, of "Suc i" "sq - seqno e" i] show ?thesis
    proof
      assume "?l = i \<and> (\<forall>e' \<in> set es. sq - seqno e' \<le> sq - seqno e)"
      with True show ?thesis
        by (simp add: scan del: query_scan.simps)
    next
      assume A: "Suc i \<le> ?l \<and> ?l < Suc i + length es
          \<and> sq - seqno e < sq - seqno (es ! (?l - Suc i))
          \<and> (\<forall>e' \<in> set es. sq - seqno e' \<le> sq - seqno (es ! (?l - Suc i)))"
      then have nth: "(e # es) ! (?l - i) = es ! (?l - Suc i)"
        by (simp add: nth_Cons') 
      from A True have "lseq < sq - seqno (es ! (?l - Suc i))"
        by (meson less_trans)
      moreover from A have "sq - seqno e \<le> sq - seqno (es ! (?l - Suc i))"
        by (simp add: less_imp_le)
      ultimately show ?thesis
        using A by (simp add: scan nth del: query_scan.simps)
    qed
  next
    case False
    then have le: "sq - seqno e \<le> lseq" by simp
    from False have scan: "query_scan nm sq (e # es) i lseq lseqi
                     = query_scan nm sq es (Suc i) lseq lseqi"
      using nh' age_test [OF nw, of lseq] by simp
    let ?l = "snd (query_scan nm sq es (Suc i) lseq lseqi)"
    from Cons.IH [OF nhs nws, of "Suc i" lseq lseqi] show ?thesis
    proof
      assume "?l = lseqi \<and> (\<forall>e' \<in> set es. sq - seqno e' \<le> lseq)"
      with le show ?thesis
        by (simp add: scan del: query_scan.simps)
    next
      assume A: "Suc i \<le> ?l \<and> ?l < Suc i + length es
          \<and> lseq < sq - seqno (es ! (?l - Suc i))
          \<and> (\<forall>e' \<in> set es. sq - seqno e' \<le> sq - seqno (es ! (?l - Suc i)))"
      then have nth: "(e # es) ! (?l - i) = es ! (?l - Suc i)"
        by (simp add: nth_Cons')
      from A le have "sq - seqno e \<le> sq - seqno (es ! (?l - Suc i))"
        by (meson le_less_trans less_imp_le)
      then show ?thesis
        using A by (simp add: scan nth del: query_scan.simps)
    qed
  qed
qed

lemma query_scan_no_hit:
  "\<forall>e \<in> set es. \<not> hit nm e \<Longrightarrow> fst (query_scan nm sq es i lseq lseqi) = i + length es"
  by (induction es arbitrary: i lseq lseqi) (simp_all add: hit_def)

lemma resolv_query_evicts_oldest_before_wrap:
  assumes "\<forall>e \<in> set (names s). \<not> hit nm e"
    and "\<forall>e \<in> set (names s). seqno e \<le> cur_seqno s"
  shows "\<forall>e \<in> set (names s).
           cur_seqno s - seqno e \<le> cur_seqno s - seqno (names s ! query_index nm s)"
proof -
  let ?l = "snd (query_scan nm (cur_seqno s) (names s) 0 0 0)"
  have idx: "query_index nm s = ?l"
    using query_scan_no_hit [OF assms(1), of "cur_seqno s" 0 0 0]
    by (simp add: query_index_alt)
  from query_scan_oldest [OF assms, of 0 0 0] show ?thesis
  proof
    assume "?l = 0 \<and> (\<forall>e \<in> set (names s). cur_seqno s - seqno e \<le> 0)"
    then show ?thesis by (simp add: idx)
  next
    assume "0 \<le> ?l \<and> ?l < 0 + length (names s)
          \<and> 0 < cur_seqno s - seqno (names s ! (?l - 0))
          \<and> (\<forall>e \<in> set (names s). cur_seqno s - seqno e
                 \<le> cur_seqno s - seqno (names s ! (?l - 0)))"
    then show ?thesis by (simp add: idx)
  qed
qed

subsection \<open>The invariant of the driver\<close>

text \<open>
  \<open>entry_ok\<close> holds for the table the process starts with and is kept by
  \<^verbatim>\<open>resolv_query\<close>, \<^verbatim>\<open>newdata\<close> and \<^verbatim>\<open>check_entries\<close>.
\<close>

lemma list_all_update: "list_all P xs \<Longrightarrow> P x \<Longrightarrow> list_all P (xs[i := x])"
  by (induction xs arbitrary: i) (auto split: nat.splits)

lemma entry_ok_init: "list_all (entry_ok cfg) (names (resolv_init k))"
  by (simp add: resolv_init_def unused_entry_def entry_ok_def list_all_iff)

lemma entry_ok_not_asking: "state e \<noteq> STATE_ASKING \<Longrightarrow> entry_ok cfg e"
  by (simp add: entry_ok_def)

lemma entry_ok_resolv_query:
  assumes "list_all (entry_ok cfg) (names s)" and "resolv_query cfg nm0 s = Inr s'"
  shows "list_all (entry_ok cfg) (names s')"
  using assms
  by (auto simp add: resolv_query_def Let_def split: sum.splits if_splits
      intro!: list_all_update entry_ok_not_asking)

lemma entry_ok_newdata:
  assumes "list_all (entry_ok cfg) (names s)" and "newdata cfg buf s = Inr (s', evs)"
  shows "list_all (entry_ok cfg) (names s')"
  using assms
  by (auto simp add: newdata_def Let_def
      split: sum.splits if_splits prod.splits option.splits
      intro!: list_all_update entry_ok_not_asking)

lemma entry_ok_check_entries:
  assumes "config_ok cfg" and "list_all (entry_ok cfg) (names s)"
    and "check_entries cfg s = (s', evs)"
  shows "list_all (entry_ok cfg) (names s')"
  using assms scan_ok [OF assms(1,2)]
  by (auto simp add: check_entries_def split: prod.splits)

subsection \<open>Two runs to the end\<close>

text \<open>
  With the constants of the file and a single name under way, an mDNS name is given
  up in the fifth run of the driver, after three questions, and any other name in the
  thirtieth, after eight.
\<close>

lemma ticks_numeral:
  "ticks cfg (numeral k) s =
     (let (s1, evs1) = check_entries cfg s; (s2, evs2) = ticks cfg (pred_numeral k) s1
      in (s2, evs1 @ evs2))"
  by (simp add: numeral_eq_Suc)

lemma mdns_entry_given_up:
  "ticks default_config 5 (one_new True ''x.local'') =
     (\<lparr>names = [unused_entry\<lparr>state := STATE_ERROR, retries := 3, is_mdns := True,
                              name := ''x.local''\<rparr>,
                 unused_entry, unused_entry, unused_entry],
       cur_seqno = 1, resolv_hostname = ''contiki''\<rparr>,
      [Sendto 61616 True ''x.local'', Sendto 61616 True ''x.local'',
       Sendto 61616 True ''x.local'', Found 0 None])"
  by (simp add: ticks_numeral check_entries_def one_new_def unused_entry_def default_config_def
      RESOLV_ENCODE_INDEX_def uses_mdns_def max_retries_def)

lemma unicast_entry_given_up:
  "ticks default_config 30 (one_new False ''x.example'') =
     (\<lparr>names = [unused_entry\<lparr>state := STATE_ERROR, retries := 8, name := ''x.example''\<rparr>,
                 unused_entry, unused_entry, unused_entry],
       cur_seqno = 1, resolv_hostname = ''contiki''\<rparr>,
      [Sendto 61616 False ''x.example'', Sendto 61616 False ''x.example'',
       Sendto 61616 False ''x.example'', Sendto 61616 False ''x.example'',
       Sendto 61616 False ''x.example'', Sendto 61616 False ''x.example'',
       Sendto 61616 False ''x.example'', Sendto 61616 False ''x.example'', Found 0 None])"
  by (simp add: ticks_numeral check_entries_def one_new_def unused_entry_def default_config_def
      RESOLV_ENCODE_INDEX_def uses_mdns_def max_retries_def)

end
